theory Spec2Isabelle
  imports Main "HOL-Library.FSet" "HOL-Library.Product_Lexorder"
begin

section \<open>Data model\<close>

text \<open>
  A cell is a Python tuple \<open>(row, col)\<close> of unbounded integers. A Python \<open>set\<close> of cells is
  a finite set; \<open>len\<close> is \<open>fcard\<close>. Where the source iterates over a set
  (\<^verbatim>\<open>for c in self.cells\<close>) the model folds over the elements in ascending order; the
  lemmas \<open>Sentence_mark_mine_eq\<close>, \<open>mark_safe_each_eq\<close> and \<open>mark_mine_each_eq\<close>
  below give results in which no order occurs.
\<close>

type_synonym cell = "int \<times> int"

text \<open>
  \<^verbatim>\<open>class Sentence\<close>: the fields \<open>cells\<close> and \<open>count\<close>. \<^verbatim>\<open>__eq__\<close> compares both
  fields, which is equality of the record.
\<close>

record sentence =
  cells :: "cell fset"
  count :: int

definition Sentence :: "cell fset \<Rightarrow> int \<Rightarrow> sentence" where
  "Sentence cs n = \<lparr>cells = cs, count = n\<rparr>"

text \<open>
  \<^verbatim>\<open>known_mines\<close> and \<^verbatim>\<open>known_safes\<close> return \<^verbatim>\<open>self.cells\<close> or \<^verbatim>\<open>None\<close>. Each
  returns the value together with the receiver as it is after the call.
\<close>

definition known_mines :: "sentence \<Rightarrow> cell fset option \<times> sentence" where
  "known_mines s = (if int (fcard (cells s)) = count s then (Some (cells s), s) else (None, s))"

definition known_safes :: "sentence \<Rightarrow> cell fset option \<times> sentence" where
  "known_safes s = (if count s = 0 then (Some (cells s), s) else (None, s))"

text \<open>
  \<^verbatim>\<open>Sentence.mark_mine\<close>: the loop over \<^verbatim>\<open>self.cells\<close> builds \<^verbatim>\<open>new_set\<close> and
  decrements \<^verbatim>\<open>self.count\<close> in its \<^verbatim>\<open>else\<close> branch.
\<close>

definition Sentence_mark_mine :: "sentence \<Rightarrow> cell \<Rightarrow> sentence" where
  "Sentence_mark_mine s cell =
     (case fold (\<lambda>c (new_set, n). if c \<noteq> cell then (finsert c new_set, n) else (new_set, n - 1))
             (sorted_list_of_fset (cells s)) ({||}, count s)
      of (new_set, n) \<Rightarrow> \<lparr>cells = new_set, count = n\<rparr>)"

definition Sentence_mark_safe :: "sentence \<Rightarrow> cell \<Rightarrow> sentence" where
  "Sentence_mark_safe s cell =
     s\<lparr>cells := fold (\<lambda>c new_set. if c \<noteq> cell then finsert c new_set else new_set)
                    (sorted_list_of_fset (cells s)) {||}\<rparr>"

text \<open>
  \<^verbatim>\<open>class MinesweeperAI\<close>. The list \<open>knowledge\<close> holds the sentence objects; an object is
  identified by its position in the list, so a mutation of every stored object is a
  \<open>map\<close> over the list.
\<close>

record ai =
  height :: int
  width :: int
  moves_made :: "cell fset"
  mines :: "cell fset"
  safes :: "cell fset"
  knowledge :: "sentence list"

definition MinesweeperAI :: "int \<Rightarrow> int \<Rightarrow> ai" where
  "MinesweeperAI h w =
     \<lparr>height = h, width = w, moves_made = {||}, mines = {||}, safes = {||}, knowledge = []\<rparr>"

definition mark_mine :: "ai \<Rightarrow> cell \<Rightarrow> ai" where
  "mark_mine st cell =
     st\<lparr>mines := finsert cell (mines st),
        knowledge := map (\<lambda>sentence. Sentence_mark_mine sentence cell) (knowledge st)\<rparr>"

definition mark_safe :: "ai \<Rightarrow> cell \<Rightarrow> ai" where
  "mark_safe st cell =
     st\<lparr>safes := finsert cell (safes st),
        knowledge := map (\<lambda>sentence. Sentence_mark_safe sentence cell) (knowledge st)\<rparr>"

text \<open>\<^verbatim>\<open>for safe in diff: self.mark_safe(safe)\<close> and its twin for mines.\<close>

definition mark_safe_each :: "ai \<Rightarrow> cell fset \<Rightarrow> ai" where
  "mark_safe_each st cs = fold (\<lambda>safe st'. mark_safe st' safe) (sorted_list_of_fset cs) st"

definition mark_mine_each :: "ai \<Rightarrow> cell fset \<Rightarrow> ai" where
  "mark_mine_each st cs = fold (\<lambda>mine st'. mark_mine st' mine) (sorted_list_of_fset cs) st"

section \<open>\<^verbatim>\<open>add_knowledge\<close>\<close>

text \<open>
  The body of the two nested \<^verbatim>\<open>range\<close> loops that scan the neighbours of \<open>cell\<close>:
  the accumulator is the list \<^verbatim>\<open>cells\<close> and the running \<^verbatim>\<open>count\<close>.
\<close>

definition scan_cell :: "ai \<Rightarrow> cell \<Rightarrow> cell \<Rightarrow> cell list \<times> int \<Rightarrow> cell list \<times> int" where
  "scan_cell st cell rc = (\<lambda>(cs, n).
     if fst rc \<ge> 0 \<and> fst rc < height st \<and> snd rc \<ge> 0 \<and> snd rc < width st then
       if rc = cell then (cs, n)
       else
         (case (if rc |\<in>| mines st then n - 1 else n) of n' \<Rightarrow>
            if rc |\<notin>| mines st \<and> rc |\<notin>| safes st then (cs @ [rc], n') else (cs, n'))
     else (cs, n))"

definition scan_neighbours :: "ai \<Rightarrow> cell \<Rightarrow> int \<Rightarrow> cell list \<times> int" where
  "scan_neighbours st cell cnt =
     (case cell of (i, j) \<Rightarrow>
        fold (\<lambda>row acc. fold (\<lambda>col. scan_cell st cell (row, col)) [j - 1 .. j + 1] acc)
          [i - 1 .. i + 1] ([], cnt))"

text \<open>
  Lines 200 to 216: record the move, mark the cell safe, build the new sentence and
  append it. The new sentence is the last object of the list from here on.
\<close>

definition add_sentence :: "ai \<Rightarrow> cell \<Rightarrow> int \<Rightarrow> ai" where
  "add_sentence st cell cnt =
     (case mark_safe (st\<lparr>moves_made := finsert cell (moves_made st)\<rparr>) cell of st' \<Rightarrow>
        case scan_neighbours st' cell cnt of (cs, n) \<Rightarrow>
          st'\<lparr>knowledge := knowledge st' @ [Sentence (fset_of_list cs) n]\<rparr>)"

text \<open>
  One iteration of \<^verbatim>\<open>for sentence in self.knowledge\<close> (lines 220 to 252). \<open>k\<close> is the
  position of \<^verbatim>\<open>new_sentence\<close>, \<open>i\<close> the position of \<^verbatim>\<open>sentence\<close>; both are read from
  the current state, since the marks of earlier iterations have mutated the stored
  objects. The sentences in \<^verbatim>\<open>inferences\<close> are not in \<^verbatim>\<open>self.knowledge\<close> yet, so no mark
  reaches them.
\<close>

definition infer_step :: "nat \<Rightarrow> nat \<Rightarrow> ai \<times> sentence list \<Rightarrow> ai \<times> sentence list" where
  "infer_step k i = (\<lambda>(st, inferences).
     case (knowledge st ! i, knowledge st ! k) of (sentence, new_sentence) \<Rightarrow>
       if sentence = new_sentence then (st, inferences)
       else if cells sentence |\<subseteq>| cells new_sentence then
         (case cells new_sentence |-| cells sentence of diff \<Rightarrow>
            if count sentence = count new_sentence then (mark_safe_each st diff, inferences)
            else if int (fcard diff) = count new_sentence - count sentence
              then (mark_mine_each st diff, inferences)
            else (st, inferences @ [Sentence diff (count new_sentence - count sentence)]))
       else if cells new_sentence |\<subseteq>| cells sentence then
         (case cells sentence |-| cells new_sentence of diff \<Rightarrow>
            if count sentence = count new_sentence then (mark_safe_each st diff, inferences)
            else if int (fcard diff) = count sentence - count new_sentence
              then (mark_mine_each st diff, inferences)
            else (st, inferences @ [Sentence diff (count sentence - count new_sentence)]))
       else (st, inferences))"

definition make_inferences :: "ai \<Rightarrow> ai \<times> sentence list" where
  "make_inferences st =
     fold (infer_step (length (knowledge st) - 1)) [0 ..< length (knowledge st)] (st, [])"

text \<open>\<^verbatim>\<open>remove_duplicates\<close>: \<^verbatim>\<open>not in\<close> on a list compares with \<^verbatim>\<open>__eq__\<close>.\<close>

definition remove_duplicates :: "ai \<Rightarrow> ai" where
  "remove_duplicates st =
     st\<lparr>knowledge :=
          fold (\<lambda>sentence unique_knowledge.
                  if sentence \<notin> set unique_knowledge then unique_knowledge @ [sentence]
                  else unique_knowledge)
            (knowledge st) []\<rparr>"

text \<open>Python truth value of \<^verbatim>\<open>None\<close> or a set: a non-empty set only.\<close>

fun truthy :: "cell fset option \<Rightarrow> bool" where
  "truthy None = False"
| "truthy (Some cs) = (cs \<noteq> {||})"

text \<open>
  One iteration of the loop of \<^verbatim>\<open>add_known_safes_and_mines\<close>. \<^verbatim>\<open>final_knowledge\<close> holds
  references to objects of \<^verbatim>\<open>self.knowledge\<close>, which later marks still mutate: the model
  keeps their positions and reads the objects when the loop is over.
\<close>

definition harvest_step :: "nat \<Rightarrow> ai \<times> nat list \<Rightarrow> ai \<times> nat list" where
  "harvest_step i = (\<lambda>(st, final_knowledge).
     case (fst (known_safes (knowledge st ! i)), fst (known_mines (knowledge st ! i))) of
       (safes', mines') \<Rightarrow>
         (case (case safes' of Some cs \<Rightarrow> if truthy safes' then mark_safe_each st cs else st
                             | None \<Rightarrow> st) of st1 \<Rightarrow>
          case (case mines' of Some cs \<Rightarrow> if truthy mines' then mark_mine_each st1 cs else st1
                             | None \<Rightarrow> st1) of st2 \<Rightarrow>
            (st2, if \<not> (truthy safes' \<or> truthy mines') then final_knowledge @ [i]
                  else final_knowledge)))"

definition add_known_safes_and_mines :: "ai \<Rightarrow> ai" where
  "add_known_safes_and_mines st =
     (case fold harvest_step [0 ..< length (knowledge st)] (st, []) of
        (st', final_knowledge) \<Rightarrow> st'\<lparr>knowledge := map (\<lambda>i. knowledge st' ! i) final_knowledge\<rparr>)"

text \<open>Lines 255 and 256: \<^verbatim>\<open>self.knowledge.extend(inferences)\<close>, then \<^verbatim>\<open>remove_duplicates\<close>.\<close>

definition extend_knowledge :: "ai \<times> sentence list \<Rightarrow> ai" where
  "extend_knowledge = (\<lambda>(st, inferences).
     remove_duplicates (st\<lparr>knowledge := knowledge st @ inferences\<rparr>))"

definition add_knowledge :: "ai \<Rightarrow> cell \<Rightarrow> int \<Rightarrow> ai" where
  "add_knowledge st cell cnt =
     add_known_safes_and_mines (extend_knowledge (make_inferences (add_sentence st cell cnt)))"

section \<open>Move selection\<close>

text \<open>
  \<^verbatim>\<open>make_safe_move\<close>. \<^verbatim>\<open>set.pop\<close> removes and returns an arbitrary element of the local
  set \<^verbatim>\<open>safeCells\<close>; the parameter \<open>pick\<close> selects which one, so that every element can be
  returned. The second component is the engine state after the call.
\<close>

definition make_safe_move :: "nat \<Rightarrow> ai \<Rightarrow> cell option \<times> ai" where
  "make_safe_move pick st =
     (case safes st |-| moves_made st of safeCells \<Rightarrow>
        if safeCells = {||} then (None, st)
        else (Some (sorted_list_of_fset safeCells ! (pick mod fcard safeCells)), st))"

text \<open>
  \<^verbatim>\<open>make_random_move\<close>. \<open>rnd t\<close> is the \<open>t\<close>-th draw of the random generator;
  \<^verbatim>\<open>random.choice\<close> of a non-empty list returns the element at a drawn index. The
  function falls off its end, returning \<^verbatim>\<open>None\<close>, when the list is exhausted.
\<close>

definition all_cells :: "ai \<Rightarrow> cell list" where
  "all_cells st =
     fold (\<lambda>i acc. fold (\<lambda>j acc'. acc' @ [(i, j)]) [0 .. width st - 1] acc)
       [0 .. height st - 1] []"

function random_loop :: "(nat \<Rightarrow> nat) \<Rightarrow> nat \<Rightarrow> ai \<Rightarrow> cell list \<Rightarrow> cell option" where
  "random_loop rnd t st possible_moves =
     (if length possible_moves \<noteq> 0 then
        (case possible_moves ! (rnd t mod length possible_moves) of random_move \<Rightarrow>
           if random_move |\<notin>| moves_made st \<and> random_move |\<notin>| mines st then Some random_move
           else random_loop rnd (Suc t) st (remove1 random_move possible_moves))
      else None)"
  by pat_completeness auto
termination
  by (relation "measure (\<lambda>(rnd, t, st, possible_moves). length possible_moves)")
     (auto simp: length_remove1 intro!: diff_less)

declare random_loop.simps [simp del]

definition make_random_move :: "(nat \<Rightarrow> nat) \<Rightarrow> ai \<Rightarrow> cell option \<times> ai" where
  "make_random_move rnd st = (random_loop rnd 0 st (all_cells st), st)"

section \<open>The board and the documented usage\<close>

text \<open>
  \<^verbatim>\<open>Minesweeper.nearby_mines\<close>, the count that the board reports for a probed cell. The
  board is given by its set \<open>M\<close> of mines (\<^verbatim>\<open>self.board[i][j]\<close> is true exactly for the
  cells of \<^verbatim>\<open>self.mines\<close>).
\<close>

definition nearby_mines :: "int \<Rightarrow> int \<Rightarrow> cell fset \<Rightarrow> cell \<Rightarrow> int" where
  "nearby_mines h w M cell =
     fold (\<lambda>i cnt. fold (\<lambda>j cnt'.
             if (i, j) = cell then cnt'
             else if 0 \<le> i \<and> i < h \<and> 0 \<le> j \<and> j < w
               then (if (i, j) |\<in>| M then cnt' + 1 else cnt')
             else cnt') [snd cell - 1 .. snd cell + 1] cnt)
       [fst cell - 1 .. fst cell + 1] 0"

text \<open>A sentence is true of a board when its count is the number of its cells that are mines.\<close>

definition true_of :: "cell fset \<Rightarrow> sentence \<Rightarrow> bool" where
  "true_of M s = (count s = int (fcard (cells s |\<inter>| M)))"

text \<open>The invariant of the data model, \<open>0 \<le> count \<le> |cells|\<close>.\<close>

definition count_in_range :: "sentence \<Rightarrow> bool" where
  "count_in_range s = (0 \<le> count s \<and> count s \<le> int (fcard (cells s)))"

text \<open>Mutations of one sentence, and their documented usage on a board \<open>M\<close>.\<close>

datatype mark = Mine cell | Safe cell

fun Sentence_mark :: "mark \<Rightarrow> sentence \<Rightarrow> sentence" where
  "Sentence_mark (Mine c) s = Sentence_mark_mine s c"
| "Sentence_mark (Safe c) s = Sentence_mark_safe s c"

fun correct_mark :: "cell fset \<Rightarrow> sentence \<Rightarrow> mark \<Rightarrow> bool" where
  "correct_mark M s (Mine c) = (c |\<in>| cells s \<and> c |\<in>| M)"
| "correct_mark M s (Safe c) = (c |\<notin>| M)"

fun correct_usage :: "cell fset \<Rightarrow> sentence \<Rightarrow> mark list \<Rightarrow> bool" where
  "correct_usage M s [] = True"
| "correct_usage M s (m # ms) = (correct_mark M s m \<and> correct_usage M (Sentence_mark m s) ms)"

text \<open>
  Calls of the engine, and their documented preconditions on a board \<open>M\<close>: an observed
  cell is no mine and comes with the count the board reports; a cell marked directly as
  a mine is one.
\<close>

datatype call = Observe cell int | MarkMine cell

fun exec :: "call \<Rightarrow> ai \<Rightarrow> ai" where
  "exec (Observe cell cnt) st = add_knowledge st cell cnt"
| "exec (MarkMine cell) st = mark_mine st cell"

fun permitted :: "cell fset \<Rightarrow> ai \<Rightarrow> call \<Rightarrow> bool" where
  "permitted M st (Observe cell cnt) =
     (cell |\<notin>| M \<and> cnt = nearby_mines (height st) (width st) M cell)"
| "permitted M st (MarkMine cell) = (cell |\<in>| M)"

fun permitted_all :: "cell fset \<Rightarrow> ai \<Rightarrow> call list \<Rightarrow> bool" where
  "permitted_all M st [] = True"
| "permitted_all M st (c # cs) = (permitted M st c \<and> permitted_all M (exec c st) cs)"

text \<open>
  A sentence from which \<^verbatim>\<open>add_known_safes_and_mines\<close> draws a conclusion: one of
  \<^verbatim>\<open>known_safes\<close>, \<^verbatim>\<open>known_mines\<close> is a non-empty set.
\<close>

definition conclusive :: "sentence \<Rightarrow> bool" where
  "conclusive s = (truthy (fst (known_safes s)) \<or> truthy (fst (known_mines s)))"

text \<open>The in-bounds neighbours of a cell, in the order in which \<^verbatim>\<open>add_knowledge\<close> scans them.\<close>

definition neighbours :: "ai \<Rightarrow> cell \<Rightarrow> cell list" where
  "neighbours st cell =
     filter (\<lambda>rc. 0 \<le> fst rc \<and> fst rc < height st \<and> 0 \<le> snd rc \<and> snd rc < width st \<and> rc \<noteq> cell)
       (List.product [fst cell - 1 .. fst cell + 1] [snd cell - 1 .. snd cell + 1])"

section \<open>Notions used in the statements\<close>

text \<open>What a run of marks over a set \<open>X\<close> of cells does to one stored sentence.\<close>

definition strip_safes :: "cell fset \<Rightarrow> sentence \<Rightarrow> sentence" where
  "strip_safes X s = s\<lparr>cells := cells s |-| X\<rparr>"

definition strip_mines :: "cell fset \<Rightarrow> sentence \<Rightarrow> sentence" where
  "strip_mines X s = \<lparr>cells = cells s |-| X, count = count s - int (fcard (cells s |\<inter>| X))\<rparr>"

text \<open>
  The pair \<open>(A, B)\<close> that the iteration \<open>i\<close> of the inference loop compares, \<open>k\<close> being
  the position of the new sentence: the two sentences differ, \<open>A.cells \<subseteq> B.cells\<close>, and
  the first test of the source, \<^verbatim>\<open>sentence.cells.issubset(new_sentence.cells)\<close>, has
  priority over the second.
\<close>

definition compared :: "ai \<Rightarrow> nat \<Rightarrow> nat \<Rightarrow> sentence \<Rightarrow> sentence \<Rightarrow> bool" where
  "compared st k i A B =
     (knowledge st ! i \<noteq> knowledge st ! k \<and> cells A |\<subseteq>| cells B \<and>
      (A = knowledge st ! i \<and> B = knowledge st ! k \<or>
       A = knowledge st ! k \<and> B = knowledge st ! i \<and> \<not> cells B |\<subseteq>| cells A))"

text \<open>
  The state and the list \<^verbatim>\<open>inferences\<close> when the iteration \<open>i\<close> of the inference loop
  begins, the loop having started in \<open>st\<close>.
\<close>

definition before_iteration :: "ai \<Rightarrow> nat \<Rightarrow> ai \<times> sentence list" where
  "before_iteration st i = fold (infer_step (length (knowledge st) - 1)) [0 ..< i] (st, [])"

text \<open>From \<open>st\<close> to \<open>st'\<close> the sets of the engine have only grown, on the same grid.\<close>

definition grows :: "ai \<Rightarrow> ai \<Rightarrow> bool" where
  "grows st st' =
     (safes st |\<subseteq>| safes st' \<and> mines st |\<subseteq>| mines st' \<and> moves_made st |\<subseteq>| moves_made st' \<and>
      height st' = height st \<and> width st' = width st)"

text \<open>
  The engine is sound for a board \<open>M\<close>: every known mine is a mine, no known safe cell is
  one, and every stored sentence is true.
\<close>

definition sound :: "cell fset \<Rightarrow> ai \<Rightarrow> bool" where
  "sound M st =
     (mines st |\<subseteq>| M \<and> safes st |\<inter>| M = {||} \<and> list_all (true_of M) (knowledge st))"

section \<open>Example states\<close>

text \<open>A state with one safe cell left to play, on a board of one row and two columns.\<close>

definition one_safe_left :: ai where
  "one_safe_left =
     \<lparr>height = 1, width = 2, moves_made = {|(0, 0)|}, mines = {||},
      safes = {|(0, 0), (0, 1)|}, knowledge = []\<rparr>"

text \<open>The only cell of a board with one cell is observed.\<close>

definition observed_1x1 :: ai where
  "observed_1x1 = add_knowledge (MinesweeperAI 1 1) (0, 0) 0"

text \<open>
  The board of 2 rows and 4 columns with the mines \<open>(0,0)\<close>, \<open>(0,1)\<close> and \<open>(1,3)\<close>:
  the cells \<open>(1,0)\<close>, \<open>(0,2)\<close> and \<open>(0,3)\<close> are observed with the counts of the board.
\<close>

definition board_2x4 :: "cell fset" where
  "board_2x4 = {|(0, 0), (0, 1), (1, 3)|}"

definition calls_2x4 :: "call list" where
  "calls_2x4 = [Observe (1, 0) 2, Observe (0, 2) 2, Observe (0, 3) 1]"

definition observed_2x4 :: ai where
  "observed_2x4 = fold exec calls_2x4 (MinesweeperAI 2 4)"

text \<open>
  The board of 1 row and 5 columns with the mines \<open>(0,2)\<close> and \<open>(0,4)\<close>: the cells
  \<open>(0,1)\<close> and \<open>(0,3)\<close> are observed with the counts of the board.
\<close>

definition board_1x5 :: "cell fset" where
  "board_1x5 = {|(0, 2), (0, 4)|}"

definition calls_1x5 :: "call list" where
  "calls_1x5 = [Observe (0, 1) 1, Observe (0, 3) 2]"

definition observed_1x5 :: ai where
  "observed_1x5 = fold exec calls_1x5 (MinesweeperAI 1 5)"

text \<open>
  The board of 3 rows and 3 columns with the mines \<open>(0,0)\<close> and \<open>(2,0)\<close>: the cells
  \<open>(0,1)\<close>, \<open>(1,0)\<close> and \<open>(1,1)\<close> are observed with the counts of the board.
\<close>

definition board_3x3 :: "cell fset" where
  "board_3x3 = {|(0, 0), (2, 0)|}"

definition calls_3x3 :: "call list" where
  "calls_3x3 = [Observe (0, 1) 1, Observe (1, 0) 2, Observe (1, 1) 2]"

definition observed_3x3 :: ai where
  "observed_3x3 = fold exec calls_3x3 (MinesweeperAI 3 3)"

text \<open>
  The board of 2 rows and 3 columns with the mine \<open>(0,1)\<close>, the cells \<open>(1,0)\<close> and
  \<open>(1,2)\<close> observed with the counts of the board; the next call observes \<open>(1,1)\<close>.
\<close>

definition observed_2x3 :: ai where
  "observed_2x3 = fold exec [Observe (1, 0) 1, Observe (1, 2) 1] (MinesweeperAI 2 3)"

text \<open>The two pairs of sentences of the subset rule, the second sentence being the new one.\<close>

definition subset_example_safe :: ai where
  "subset_example_safe =
     (MinesweeperAI 1 3)\<lparr>knowledge :=
        [Sentence {|(0, 0), (0, 1)|} 1, Sentence {|(0, 0), (0, 1), (0, 2)|} 1]\<rparr>"

definition subset_example_mine :: ai where
  "subset_example_mine =
     (MinesweeperAI 1 2)\<lparr>knowledge := [Sentence {|(0, 0)|} 1, Sentence {|(0, 0), (0, 1)|} 2]\<rparr>"

section \<open>The operations of a sentence\<close>

lemma distinct_sorted_list_of_fset: "distinct (sorted_list_of_fset S)"
  by (simp add: sorted_list_of_fset.rep_eq)

lemma length_sorted_list_of_fset: "length (sorted_list_of_fset S) = fcard S"
  by (simp add: sorted_list_of_fset.rep_eq fcard.rep_eq)

lemma fold_mark_mine_aux:
  "distinct xs \<Longrightarrow>
   fold (\<lambda>c (new_set, n). if c \<noteq> cell then (finsert c new_set, n) else (new_set, n - 1)) xs (A, n)
   = (A |\<union>| (fset_of_list xs |-| {|cell|}), if cell \<in> set xs then n - 1 else (n::int))"
  by (induction xs arbitrary: A n) (auto simp: fset_of_list_elem)

lemma fold_mark_safe_aux:
  "fold (\<lambda>c new_set. if c \<noteq> cell then finsert c new_set else new_set) xs A
   = A |\<union>| (fset_of_list xs |-| {|cell|})"
  by (induction xs arbitrary: A) auto

lemma Sentence_mark_mine_eq:
  "Sentence_mark_mine s cell =
     (if cell |\<in>| cells s then \<lparr>cells = cells s |-| {|cell|}, count = count s - 1\<rparr> else s)"
  by (simp add: Sentence_mark_mine_def fold_mark_mine_aux distinct_sorted_list_of_fset)

lemma Sentence_mark_safe_eq:
  "Sentence_mark_safe s cell = s\<lparr>cells := cells s |-| {|cell|}\<rparr>"
  by (simp add: Sentence_mark_safe_def fold_mark_safe_aux)

text \<open>
  Claim C6. \<^verbatim>\<open>known_mines\<close> returns the set of all member cells exactly when
  \<open>count = |cells|\<close> and \<^verbatim>\<open>None\<close> otherwise; \<^verbatim>\<open>known_safes\<close> returns the set of all
  member cells exactly when \<open>count = 0\<close> and \<^verbatim>\<open>None\<close> otherwise; neither changes the
  sentence.
\<close>

theorem known_mines_known_safes:
  "(fst (known_mines s) = Some (cells s) \<longleftrightarrow> count s = int (fcard (cells s))) \<and>
   (fst (known_mines s) = None \<longleftrightarrow> count s \<noteq> int (fcard (cells s))) \<and>
   (fst (known_safes s) = Some (cells s) \<longleftrightarrow> count s = 0) \<and>
   (fst (known_safes s) = None \<longleftrightarrow> count s \<noteq> 0) \<and>
   snd (known_mines s) = s \<and> snd (known_safes s) = s"
  by (auto simp: known_mines_def known_safes_def)

theorem known_mines_known_safes_witness:
  "fst (known_safes (Sentence {|(1, 1)|} 0)) = Some {|(1, 1)|} \<and>
   fst (known_mines (Sentence {|(1, 1)|} 0)) = None \<and>
   fst (known_mines (Sentence {|(1, 1), (1, 2)|} 2)) = Some {|(1, 1), (1, 2)|} \<and>
   snd (known_safes (Sentence {|(1, 1)|} 0)) = Sentence {|(1, 1)|} 0"
  using known_mines_known_safes [of "Sentence {|(1, 1)|} 0"]
    known_mines_known_safes [of "Sentence {|(1, 1), (1, 2)|} 2"]
  by (simp add: Sentence_def fcard_finsert_if)

text \<open>
  Claim C7. For a member cell, \<^verbatim>\<open>Sentence.mark_mine\<close> removes the cell and decrements
  the count by exactly 1, and \<^verbatim>\<open>Sentence.mark_safe\<close> removes the cell and keeps the
  count; for any other cell both leave the sentence as it is. Both are total functions.
\<close>

theorem Sentence_mark_member:
  "(cell |\<in>| cells s \<longrightarrow>
      cells (Sentence_mark_mine s cell) = cells s |-| {|cell|} \<and>
      count (Sentence_mark_mine s cell) = count s - 1 \<and>
      cells (Sentence_mark_safe s cell) = cells s |-| {|cell|} \<and>
      count (Sentence_mark_safe s cell) = count s) \<and>
   (cell |\<notin>| cells s \<longrightarrow> Sentence_mark_mine s cell = s \<and> Sentence_mark_safe s cell = s)"
  by (simp add: Sentence_mark_mine_eq Sentence_mark_safe_eq)

theorem Sentence_mark_member_witness:
  "Sentence_mark_mine (Sentence {|(0, 0), (0, 1)|} 2) (0, 1) = Sentence {|(0, 0)|} 1 \<and>
   Sentence_mark_safe (Sentence {|(0, 0), (0, 1)|} 1) (0, 1) = Sentence {|(0, 0)|} 1 \<and>
   Sentence_mark_mine (Sentence {|(0, 0), (0, 1)|} 2) (5, 5) = Sentence {|(0, 0), (0, 1)|} 2 \<and>
   Sentence_mark_safe (Sentence {|(0, 0), (0, 1)|} 2) (5, 5) = Sentence {|(0, 0), (0, 1)|} 2"
proof -
  have a: "(0, 1) |\<in>| cells (Sentence {|(0, 0), (0, 1)|} n)" for n
    by (simp add: Sentence_def)
  have b: "(5, 5) |\<notin>| cells (Sentence {|(0, 0), (0, 1)|} n)" for n
    by (simp add: Sentence_def)
  have c: "{|(0, 0), (0, 1)|} |-| {|(0, 1)|} = {|(0::int, 0::int)|}"
    by auto
  show ?thesis
    using Sentence_mark_member [of "(0, 1)" "Sentence {|(0, 0), (0, 1)|} 2"]
      Sentence_mark_member [of "(0, 1)" "Sentence {|(0, 0), (0, 1)|} 1"]
      Sentence_mark_member [of "(5, 5)" "Sentence {|(0, 0), (0, 1)|} 2"] a b c
    by (simp add: Sentence_def sentence.equality)
qed

lemma true_of_mark_mine:
  assumes "true_of M s" and "c |\<in>| M"
  shows "true_of M (Sentence_mark_mine s c)"
proof (cases "c |\<in>| cells s")
  case True
  have eq: "(cells s |-| {|c|}) |\<inter>| M = (cells s |\<inter>| M) |-| {|c|}" by auto
  have "c |\<in>| cells s |\<inter>| M" using True assms(2) by simp
  then have "Suc (fcard ((cells s |\<inter>| M) |-| {|c|})) = fcard (cells s |\<inter>| M)"
    by (rule fcard_Suc_fminus1)
  then have "int (fcard ((cells s |-| {|c|}) |\<inter>| M)) = int (fcard (cells s |\<inter>| M)) - 1"
    unfolding eq by linarith
  then show ?thesis using True assms(1) by (simp add: Sentence_mark_mine_eq true_of_def)
next
  case False
  then show ?thesis using assms(1) by (simp add: Sentence_mark_mine_eq)
qed

lemma true_of_mark_safe:
  assumes "true_of M s" and "c |\<notin>| M"
  shows "true_of M (Sentence_mark_safe s c)"
proof -
  have "(cells s |-| {|c|}) |\<inter>| M = cells s |\<inter>| M" using assms(2) by auto
  then show ?thesis using assms(1) by (simp add: Sentence_mark_safe_eq true_of_def)
qed

lemma true_of_count_in_range: "true_of M s \<Longrightarrow> count_in_range s"
  by (simp add: true_of_def count_in_range_def fcard_mono)

lemma true_of_Sentence_mark: "true_of M s \<Longrightarrow> correct_mark M s m \<Longrightarrow> true_of M (Sentence_mark m s)"
  by (cases m) (simp_all add: true_of_mark_mine true_of_mark_safe)

lemma true_of_fold_Sentence_mark:
  "true_of M s \<Longrightarrow> correct_usage M s ms \<Longrightarrow> true_of M (fold Sentence_mark ms s)"
  by (induction ms arbitrary: s) (simp_all add: true_of_Sentence_mark)

text \<open>
  Claim C8. A sentence that is true of the board, mutated by any sequence of marks used
  as documented (a cell is marked as a mine only when it is a member and a mine of the
  board, and as safe only when it is no mine of the board), satisfies
  \<open>0 \<le> count \<le> |cells|\<close> after the marks; every prefix of such a sequence is such a
  sequence, so the invariant holds after every mutation, and the count is never negative.
\<close>

theorem count_in_range_after_marks:
  "true_of M s \<Longrightarrow> correct_usage M s ms \<Longrightarrow>
     0 \<le> count (fold Sentence_mark ms s) \<and>
     count (fold Sentence_mark ms s) \<le> int (fcard (cells (fold Sentence_mark ms s)))"
  using true_of_count_in_range [OF true_of_fold_Sentence_mark] by (simp add: count_in_range_def)

theorem count_in_range_after_marks_witness:
  "true_of {|(0, 1)|} (Sentence {|(0, 0), (0, 1), (0, 2)|} 1) \<and>
   correct_usage {|(0, 1)|} (Sentence {|(0, 0), (0, 1), (0, 2)|} 1) [Safe (0, 0), Mine (0, 1)] \<and>
   fold Sentence_mark [Safe (0, 0), Mine (0, 1)] (Sentence {|(0, 0), (0, 1), (0, 2)|} 1)
     = Sentence {|(0, 2)|} 0 \<and>
   0 \<le> count (fold Sentence_mark [Safe (0, 0), Mine (0, 1)] (Sentence {|(0, 0), (0, 1), (0, 2)|} 1)) \<and>
   count (fold Sentence_mark [Safe (0, 0), Mine (0, 1)] (Sentence {|(0, 0), (0, 1), (0, 2)|} 1))
     \<le> int (fcard (cells (fold Sentence_mark [Safe (0, 0), Mine (0, 1)]
                             (Sentence {|(0, 0), (0, 1), (0, 2)|} 1))))"
proof -
  have t: "true_of {|(0, 1)|} (Sentence {|(0, 0), (0, 1), (0, 2)|} 1)"
    by code_simp
  have u: "correct_usage {|(0, 1)|} (Sentence {|(0, 0), (0, 1), (0, 2)|} 1) [Safe (0, 0), Mine (0, 1)]"
    by code_simp
  have v: "fold Sentence_mark [Safe (0, 0), Mine (0, 1)] (Sentence {|(0, 0), (0, 1), (0, 2)|} 1)
     = Sentence {|(0, 2)|} 0"
    by code_simp
  show ?thesis using count_in_range_after_marks [OF t u] t u v by blast
qed

section \<open>Move selection\<close>

lemma fold_append_row: "fold (\<lambda>j acc'. acc' @ [f j]) js acc = acc @ map f js"
  by (induction js arbitrary: acc) auto

lemma fold_append_rows:
  "fold (\<lambda>i acc. fold (\<lambda>j acc'. acc' @ [(i, j)]) js acc) is acc = acc @ List.product is js"
  by (induction "is" arbitrary: acc) (auto simp: fold_append_row)

lemma all_cells_eq: "all_cells st = List.product [0 .. height st - 1] [0 .. width st - 1]"
  by (simp add: all_cells_def fold_append_rows)

lemma set_all_cells:
  "c \<in> set (all_cells st) \<longleftrightarrow>
     0 \<le> fst c \<and> fst c < height st \<and> 0 \<le> snd c \<and> snd c < width st"
  by (cases c) (auto simp: all_cells_eq)

lemma random_loop_unfold:
  "xs \<noteq> [] \<Longrightarrow> random_loop rnd t st xs =
     (if xs ! (rnd t mod length xs) |\<notin>| moves_made st \<and> xs ! (rnd t mod length xs) |\<notin>| mines st
      then Some (xs ! (rnd t mod length xs))
      else random_loop rnd (Suc t) st (remove1 (xs ! (rnd t mod length xs)) xs))"
  by (subst random_loop.simps) simp

lemma random_loop_Nil: "random_loop rnd t st [] = None"
  by (subst random_loop.simps) simp

lemma random_loop_None:
  "random_loop rnd t st xs = None \<longleftrightarrow> (\<forall>c \<in> set xs. c |\<in>| moves_made st \<or> c |\<in>| mines st)"
proof (induction rnd t st xs rule: random_loop.induct)
  case (1 rnd t st xs)
  show ?case
  proof (cases "xs = []")
    case True
    then show ?thesis by (simp add: random_loop_Nil)
  next
    case False
    define m where "m = xs ! (rnd t mod length xs)"
    have m: "m \<in> set xs" using False by (simp add: m_def)
    show ?thesis
    proof (cases "m |\<notin>| moves_made st \<and> m |\<notin>| mines st")
      case True
      have "random_loop rnd t st xs = Some m"
        using True False by (simp add: random_loop_unfold m_def)
      then show ?thesis using m True by auto
    next
      case bad: False
      have "random_loop rnd t st xs = random_loop rnd (Suc t) st (remove1 m xs)"
        using False bad unfolding m_def by (subst random_loop_unfold) auto
      moreover have "random_loop rnd (Suc t) st (remove1 m xs) = None \<longleftrightarrow>
          (\<forall>c \<in> set (remove1 m xs). c |\<in>| moves_made st \<or> c |\<in>| mines st)"
        using "1.IH" False bad unfolding m_def by simp
      moreover have "(\<forall>c \<in> set (remove1 m xs). c |\<in>| moves_made st \<or> c |\<in>| mines st) \<longleftrightarrow>
          (\<forall>c \<in> set xs. c |\<in>| moves_made st \<or> c |\<in>| mines st)"
        using bad m by (metis in_set_remove1 notin_set_remove1)
      ultimately show ?thesis by simp
    qed
  qed
qed

lemma random_loop_Some:
  "random_loop rnd t st xs = Some c \<Longrightarrow>
     c \<in> set xs \<and> c |\<notin>| moves_made st \<and> c |\<notin>| mines st"
proof (induction rnd t st xs rule: random_loop.induct)
  case (1 rnd t st xs)
  have ne: "xs \<noteq> []" using "1.prems" by (auto simp: random_loop_Nil)
  define m where "m = xs ! (rnd t mod length xs)"
  have m: "m \<in> set xs" using ne by (simp add: m_def)
  show ?case
  proof (cases "m |\<notin>| moves_made st \<and> m |\<notin>| mines st")
    case True
    have "random_loop rnd t st xs = Some m"
      using True ne by (simp add: random_loop_unfold m_def)
    then have "c = m" using "1.prems" by simp
    then show ?thesis using True m by simp
  next
    case bad: False
    have "random_loop rnd t st xs = random_loop rnd (Suc t) st (remove1 m xs)"
      using ne bad unfolding m_def by (subst random_loop_unfold) auto
    then have "random_loop rnd (Suc t) st (remove1 m xs) = Some c"
      using "1.prems" by simp
    then have "c \<in> set (remove1 m xs) \<and> c |\<notin>| moves_made st \<and> c |\<notin>| mines st"
      using "1.IH" ne bad unfolding m_def by simp
    then show ?thesis by (meson notin_set_remove1)
  qed
qed

lemma pick_member:
  assumes "S \<noteq> {||}"
  shows "sorted_list_of_fset S ! (pick mod fcard S) |\<in>| S"
proof -
  have "fcard S > 0" using assms by (simp add: fcard_0_eq zero_less_iff_neq_zero)
  then have "pick mod fcard S < length (sorted_list_of_fset S)"
    by (simp add: length_sorted_list_of_fset)
  then have "sorted_list_of_fset S ! (pick mod fcard S) \<in> set (sorted_list_of_fset S)"
    by (rule nth_mem)
  then show ?thesis by simp
qed

text \<open>
  Claim C9. \<^verbatim>\<open>make_safe_move\<close> returns \<^verbatim>\<open>None\<close> exactly when \<open>safes - moves_made\<close> is
  empty and an element of that set otherwise; \<^verbatim>\<open>make_random_move\<close> returns \<^verbatim>\<open>None\<close>
  exactly when every cell of the grid is in \<open>moves_made \<union> mines\<close>, and otherwise a cell of
  the grid that is in neither. Both hold for every choice of \<^verbatim>\<open>pop\<close> and every sequence
  of random draws.
\<close>

theorem move_selection:
  "(fst (make_safe_move pick st) = None \<longleftrightarrow> safes st |-| moves_made st = {||}) \<and>
   (\<forall>c. fst (make_safe_move pick st) = Some c \<longrightarrow> c |\<in>| safes st |-| moves_made st) \<and>
   (fst (make_random_move rnd st) = None \<longleftrightarrow>
      (\<forall>i j. 0 \<le> i \<and> i < height st \<and> 0 \<le> j \<and> j < width st \<longrightarrow>
             (i, j) |\<in>| moves_made st |\<union>| mines st)) \<and>
   (\<forall>c. fst (make_random_move rnd st) = Some c \<longrightarrow>
      0 \<le> fst c \<and> fst c < height st \<and> 0 \<le> snd c \<and> snd c < width st \<and>
      c |\<notin>| moves_made st \<and> c |\<notin>| mines st)"
proof -
  have a: "fst (make_safe_move pick st) = None \<longleftrightarrow> safes st |-| moves_made st = {||}"
    by (simp add: make_safe_move_def)
  have b: "c |\<in>| safes st |-| moves_made st" if "fst (make_safe_move pick st) = Some c" for c
    using that pick_member [of "safes st |-| moves_made st" pick]
    by (auto simp: make_safe_move_def split: if_splits)
  have c: "fst (make_random_move rnd st) = None \<longleftrightarrow>
      (\<forall>i j. 0 \<le> i \<and> i < height st \<and> 0 \<le> j \<and> j < width st \<longrightarrow>
             (i, j) |\<in>| moves_made st |\<union>| mines st)"
    by (simp add: make_random_move_def random_loop_None set_all_cells Ball_def)
  have d: "0 \<le> fst c \<and> fst c < height st \<and> 0 \<le> snd c \<and> snd c < width st \<and>
      c |\<notin>| moves_made st \<and> c |\<notin>| mines st" if "fst (make_random_move rnd st) = Some c" for c
  proof -
    have "c \<in> set (all_cells st) \<and> c |\<notin>| moves_made st \<and> c |\<notin>| mines st"
      using that by (simp add: make_random_move_def random_loop_Some)
    then show ?thesis by (simp add: set_all_cells)
  qed
  show ?thesis using a b c d by blast
qed

theorem move_selection_witness:
  "fst (make_safe_move 0 one_safe_left) = Some (0, 1) \<and>
   (0, 1) |\<in>| safes one_safe_left |-| moves_made one_safe_left \<and>
   fst (make_random_move (\<lambda>t. 0) one_safe_left) = Some (0, 1) \<and>
   (0, 1) |\<notin>| moves_made one_safe_left \<and> (0, 1) |\<notin>| mines one_safe_left"
proof -
  have a: "fst (make_safe_move 0 one_safe_left) = Some (0, 1)"
    by code_simp
  have b: "fst (make_random_move (\<lambda>t. 0) one_safe_left) = Some (0, 1)"
    by code_simp
  show ?thesis using move_selection [of 0 one_safe_left "\<lambda>t. 0"] a b by simp
qed

text \<open>
  Claim C10. \<^verbatim>\<open>make_safe_move\<close> changes no state of the engine: \<open>safes\<close>, \<open>mines\<close>,
  \<open>moves_made\<close> and the knowledge are after the call what they were before it.
\<close>

theorem make_safe_move_frame: "snd (make_safe_move pick st) = st"
  by (simp add: make_safe_move_def)


theorem make_safe_move_frame_witness:
  "snd (make_safe_move 0 one_safe_left) = one_safe_left \<and>
   fst (make_safe_move 0 one_safe_left) = Some (0, 1)"
proof -
  have a: "fst (make_safe_move 0 one_safe_left) = Some (0, 1)"
    by code_simp
  show ?thesis using make_safe_move_frame [of 0 one_safe_left] a by simp
qed

section \<open>Marks of the engine\<close>

lemma mark_safe_eq:
  "mark_safe st c =
     st\<lparr>safes := finsert c (safes st), knowledge := map (strip_safes {|c|}) (knowledge st)\<rparr>"
  by (simp add: mark_safe_def Sentence_mark_safe_eq strip_safes_def)

lemma strip_mines_single: "Sentence_mark_mine s c = strip_mines {|c|} s"
  by (simp add: Sentence_mark_mine_eq strip_mines_def fcard_finsert_if)

lemma mark_mine_eq:
  "mark_mine st c =
     st\<lparr>mines := finsert c (mines st), knowledge := map (strip_mines {|c|}) (knowledge st)\<rparr>"
  by (simp add: mark_mine_def strip_mines_single)

lemma strip_safes_finsert: "strip_safes X (strip_safes {|c|} s) = strip_safes (finsert c X) s"
proof -
  have "cells s |-| {|c|} |-| X = cells s |-| finsert c X" by auto
  then show ?thesis by (simp add: strip_safes_def)
qed

lemma strip_mines_finsert:
  assumes "c |\<notin>| X"
  shows "strip_mines X (strip_mines {|c|} s) = strip_mines (finsert c X) s"
proof -
  have a: "cells s |-| {|c|} |-| X = cells s |-| finsert c X" by auto
  have b: "(cells s |-| {|c|}) |\<inter>| X = cells s |\<inter>| X" using assms by auto
  have c: "int (fcard (cells s |\<inter>| {|c|})) + int (fcard (cells s |\<inter>| X))
             = int (fcard (cells s |\<inter>| finsert c X))"
  proof (cases "c |\<in>| cells s")
    case True
    then have "cells s |\<inter>| {|c|} = {|c|}" and "cells s |\<inter>| finsert c X = finsert c (cells s |\<inter>| X)"
      by auto
    moreover have "c |\<notin>| cells s |\<inter>| X" using assms by simp
    ultimately show ?thesis by (simp add: fcard_finsert_disjoint)
  next
    case False
    then have "cells s |\<inter>| {|c|} = {||}" and "cells s |\<inter>| finsert c X = cells s |\<inter>| X"
      by auto
    then show ?thesis by simp
  qed
  show ?thesis using a b c by (simp add: strip_mines_def)
qed

lemma map_strip_safes_empty: "map (strip_safes {||}) ss = ss"
  by (rule map_idI) (simp add: strip_safes_def)

lemma map_strip_mines_empty: "map (strip_mines {||}) ss = ss"
  by (rule map_idI) (simp add: strip_mines_def fcard_fempty)

lemma fold_mark_safe:
  "fold (\<lambda>safe st'. mark_safe st' safe) xs st =
     st\<lparr>safes := safes st |\<union>| fset_of_list xs,
        knowledge := map (strip_safes (fset_of_list xs)) (knowledge st)\<rparr>"
proof (induction xs arbitrary: st)
  case Nil
  show ?case by (simp add: map_strip_safes_empty)
next
  case (Cons x xs)
  have "fold (\<lambda>safe st'. mark_safe st' safe) (x # xs) st
          = fold (\<lambda>safe st'. mark_safe st' safe) xs (mark_safe st x)"
    by simp
  also have "\<dots> = (mark_safe st x)\<lparr>safes := safes (mark_safe st x) |\<union>| fset_of_list xs,
        knowledge := map (strip_safes (fset_of_list xs)) (knowledge (mark_safe st x))\<rparr>"
    by (rule Cons.IH)
  also have "\<dots> = st\<lparr>safes := safes st |\<union>| fset_of_list (x # xs),
        knowledge := map (strip_safes (fset_of_list (x # xs))) (knowledge st)\<rparr>"
    by (simp add: mark_safe_eq strip_safes_finsert o_def)
  finally show ?case .
qed

lemma fold_mark_mine:
  "distinct xs \<Longrightarrow> fold (\<lambda>mine st'. mark_mine st' mine) xs st =
     st\<lparr>mines := mines st |\<union>| fset_of_list xs,
        knowledge := map (strip_mines (fset_of_list xs)) (knowledge st)\<rparr>"
proof (induction xs arbitrary: st)
  case Nil
  show ?case by (simp add: map_strip_mines_empty)
next
  case (Cons x xs)
  then have x: "x |\<notin>| fset_of_list xs" and d: "distinct xs" by (simp_all add: fset_of_list_elem)
  have "fold (\<lambda>mine st'. mark_mine st' mine) (x # xs) st
          = fold (\<lambda>mine st'. mark_mine st' mine) xs (mark_mine st x)"
    by simp
  also have "\<dots> = (mark_mine st x)\<lparr>mines := mines (mark_mine st x) |\<union>| fset_of_list xs,
        knowledge := map (strip_mines (fset_of_list xs)) (knowledge (mark_mine st x))\<rparr>"
    using d by (rule Cons.IH)
  also have "\<dots> = st\<lparr>mines := mines st |\<union>| fset_of_list (x # xs),
        knowledge := map (strip_mines (fset_of_list (x # xs))) (knowledge st)\<rparr>"
    using x by (simp add: mark_mine_eq strip_mines_finsert o_def)
  finally show ?case .
qed

lemma mark_safe_each_eq:
  "mark_safe_each st X =
     st\<lparr>safes := safes st |\<union>| X, knowledge := map (strip_safes X) (knowledge st)\<rparr>"
  by (simp add: mark_safe_each_def fold_mark_safe)

lemma mark_mine_each_eq:
  "mark_mine_each st X =
     st\<lparr>mines := mines st |\<union>| X, knowledge := map (strip_mines X) (knowledge st)\<rparr>"
  by (simp add: mark_mine_each_def fold_mark_mine distinct_sorted_list_of_fset)

text \<open>The order in which the cells of a set are visited makes no difference.\<close>

lemma mark_safe_each_any_order:
  "fset_of_list xs = X \<Longrightarrow> fold (\<lambda>safe st'. mark_safe st' safe) xs st = mark_safe_each st X"
  by (simp add: fold_mark_safe mark_safe_each_eq)

lemma mark_mine_each_any_order:
  "distinct xs \<Longrightarrow> fset_of_list xs = X \<Longrightarrow>
     fold (\<lambda>mine st'. mark_mine st' mine) xs st = mark_mine_each st X"
  by (simp add: fold_mark_mine mark_mine_each_eq)

lemma Sentence_mark_mine_any_order:
  assumes "distinct xs" and "fset_of_list xs = cells s"
  shows "(case fold (\<lambda>c (new_set, n). if c \<noteq> cell then (finsert c new_set, n) else (new_set, n - 1))
             xs ({||}, count s)
      of (new_set, n) \<Rightarrow> \<lparr>cells = new_set, count = n\<rparr>) = Sentence_mark_mine s cell"
proof -
  have m: "cell \<in> set xs \<longleftrightarrow> cell |\<in>| cells s"
    using assms(2) by (metis fset_of_list_elem)
  have e: "cell |\<notin>| cells s \<Longrightarrow> cells s |-| {|cell|} = cells s"
    by auto
  show ?thesis
    using e by (simp add: fold_mark_mine_aux [OF assms(1)] assms(2) m Sentence_mark_mine_eq)
qed

section \<open>The subset rule\<close>

lemma remove_duplicates_fold:
  "set (fold (\<lambda>sentence unique_knowledge.
                  if sentence \<notin> set unique_knowledge then unique_knowledge @ [sentence]
                  else unique_knowledge) xs acc) = set acc \<union> set xs \<and>
   (distinct acc \<longrightarrow> distinct (fold (\<lambda>sentence unique_knowledge.
                  if sentence \<notin> set unique_knowledge then unique_knowledge @ [sentence]
                  else unique_knowledge) xs acc))"
  by (induction xs arbitrary: acc) auto

lemma set_remove_duplicates: "set (knowledge (remove_duplicates st)) = set (knowledge st)"
  using remove_duplicates_fold [of "knowledge st" "[]"] by (simp add: remove_duplicates_def)

lemma distinct_remove_duplicates: "distinct (knowledge (remove_duplicates st))"
  using remove_duplicates_fold [of "knowledge st" "[]"] by (simp add: remove_duplicates_def)

lemma infer_step_first:
  assumes "knowledge st ! i \<noteq> knowledge st ! k"
    and "cells (knowledge st ! i) |\<subseteq>| cells (knowledge st ! k)"
  shows "infer_step k i (st, infs) =
     (if count (knowledge st ! i) = count (knowledge st ! k)
      then (mark_safe_each st (cells (knowledge st ! k) |-| cells (knowledge st ! i)), infs)
      else if int (fcard (cells (knowledge st ! k) |-| cells (knowledge st ! i)))
                = count (knowledge st ! k) - count (knowledge st ! i)
      then (mark_mine_each st (cells (knowledge st ! k) |-| cells (knowledge st ! i)), infs)
      else (st, infs @ [Sentence (cells (knowledge st ! k) |-| cells (knowledge st ! i))
                          (count (knowledge st ! k) - count (knowledge st ! i))]))"
  using assms by (simp add: infer_step_def)

lemma infer_step_second:
  assumes "knowledge st ! i \<noteq> knowledge st ! k"
    and "\<not> cells (knowledge st ! i) |\<subseteq>| cells (knowledge st ! k)"
    and "cells (knowledge st ! k) |\<subseteq>| cells (knowledge st ! i)"
  shows "infer_step k i (st, infs) =
     (if count (knowledge st ! i) = count (knowledge st ! k)
      then (mark_safe_each st (cells (knowledge st ! i) |-| cells (knowledge st ! k)), infs)
      else if int (fcard (cells (knowledge st ! i) |-| cells (knowledge st ! k)))
                = count (knowledge st ! i) - count (knowledge st ! k)
      then (mark_mine_each st (cells (knowledge st ! i) |-| cells (knowledge st ! k)), infs)
      else (st, infs @ [Sentence (cells (knowledge st ! i) |-| cells (knowledge st ! k))
                          (count (knowledge st ! i) - count (knowledge st ! k))]))"
  using assms by (simp add: infer_step_def)

lemma infer_step_compared:
  assumes "compared st k i A B"
  shows "infer_step k i (st, infs) =
     (if count B - count A = 0 then (mark_safe_each st (cells B |-| cells A), infs)
      else if count B - count A = int (fcard (cells B |-| cells A))
      then (mark_mine_each st (cells B |-| cells A), infs)
      else (st, infs @ [Sentence (cells B |-| cells A) (count B - count A)]))"
proof -
  consider (first) "A = knowledge st ! i" "B = knowledge st ! k"
    | (second) "A = knowledge st ! k" "B = knowledge st ! i" "\<not> cells B |\<subseteq>| cells A"
    using assms by (auto simp: compared_def)
  then show ?thesis
  proof cases
    case first
    then show ?thesis
      using assms infer_step_first [of st i k infs] by (auto simp: compared_def)
  next
    case second
    then show ?thesis
      using assms infer_step_second [of st i k infs] by (auto simp: compared_def)
  qed
qed


lemma infer_step_skip_or_compared:
  "infer_step k i (st, infs) = (st, infs) \<or>
   (\<exists>A B. compared st k i A B \<and> A \<in> {knowledge st ! i, knowledge st ! k} \<and>
           B \<in> {knowledge st ! i, knowledge st ! k})"
proof (cases "knowledge st ! i = knowledge st ! k")
  case True
  then show ?thesis by (simp add: infer_step_def)
next
  case ne: False
  show ?thesis
  proof (cases "cells (knowledge st ! i) |\<subseteq>| cells (knowledge st ! k)")
    case True
    then have "compared st k i (knowledge st ! i) (knowledge st ! k)"
      using ne by (simp add: compared_def)
    then show ?thesis by blast
  next
    case nsub: False
    show ?thesis
    proof (cases "cells (knowledge st ! k) |\<subseteq>| cells (knowledge st ! i)")
      case True
      then have "compared st k i (knowledge st ! k) (knowledge st ! i)"
        using ne nsub by (simp add: compared_def)
      then show ?thesis by blast
    next
      case False
      then show ?thesis using ne nsub by (simp add: infer_step_def)
    qed
  qed
qed

section \<open>The sets of the engine only grow\<close>

lemma grows_refl: "grows st st"
  by (simp add: grows_def)

lemma grows_trans: "grows a b \<Longrightarrow> grows b c \<Longrightarrow> grows a c"
  by (auto simp: grows_def)

lemma grows_mark_safe_each: "grows st (mark_safe_each st X)"
  by (simp add: grows_def mark_safe_each_eq)

lemma grows_mark_mine_each: "grows st (mark_mine_each st X)"
  by (simp add: grows_def mark_mine_each_eq)

lemma grows_mark_safe: "grows st (mark_safe st c)"
  by (auto simp: grows_def mark_safe_eq)

lemma grows_mark_mine: "grows st (mark_mine st c)"
  by (auto simp: grows_def mark_mine_eq)

lemma length_mark_safe_each: "length (knowledge (mark_safe_each st X)) = length (knowledge st)"
  by (simp add: mark_safe_each_eq)

lemma length_mark_mine_each: "length (knowledge (mark_mine_each st X)) = length (knowledge st)"
  by (simp add: mark_mine_each_eq)

lemma infer_step_grows:
  "grows st (fst (infer_step k i (st, infs))) \<and>
   length (knowledge (fst (infer_step k i (st, infs)))) = length (knowledge st) \<and>
   set infs \<subseteq> set (snd (infer_step k i (st, infs)))"
proof -
  consider (skip) "infer_step k i (st, infs) = (st, infs)"
    | (rule) A B where "compared st k i A B"
    using infer_step_skip_or_compared [of k i st infs] by blast
  then show ?thesis
  proof cases
    case skip
    then show ?thesis by (simp add: grows_refl)
  next
    case rule
    show ?thesis
      unfolding infer_step_compared [OF rule]
      by (auto simp: grows_refl grows_mark_safe_each grows_mark_mine_each
          length_mark_safe_each length_mark_mine_each)
  qed
qed

lemma fold_infer_step_grows:
  "grows st (fst (fold (infer_step k) is (st, infs))) \<and>
   length (knowledge (fst (fold (infer_step k) is (st, infs)))) = length (knowledge st) \<and>
   set infs \<subseteq> set (snd (fold (infer_step k) is (st, infs)))"
proof (induction "is" arbitrary: st infs)
  case Nil
  show ?case by (simp add: grows_refl)
next
  case (Cons i "is")
  obtain st' infs' where step: "infer_step k i (st, infs) = (st', infs')"
    by (cases "infer_step k i (st, infs)")
  have a: "grows st st'" "length (knowledge st') = length (knowledge st)" "set infs \<subseteq> set infs'"
    using infer_step_grows [of st k i infs] step by simp_all
  show ?case
    using Cons.IH [of st' infs'] a step by (auto intro: grows_trans)
qed

lemma harvest_step_grows:
  "grows st (fst (harvest_step i (st, final))) \<and>
   length (knowledge (fst (harvest_step i (st, final)))) = length (knowledge st)"
proof -
  have a: "grows st (mark_mine_each (mark_safe_each st X) Y)" for X Y
    by (rule grows_trans [OF grows_mark_safe_each grows_mark_mine_each])
  show ?thesis
    by (auto simp: harvest_step_def a grows_refl grows_mark_safe_each grows_mark_mine_each
        length_mark_safe_each length_mark_mine_each split: option.splits)
qed

lemma fold_harvest_step_grows:
  "grows st (fst (fold harvest_step is (st, final))) \<and>
   length (knowledge (fst (fold harvest_step is (st, final)))) = length (knowledge st)"
proof (induction "is" arbitrary: st final)
  case Nil
  show ?case by (simp add: grows_refl)
next
  case (Cons i "is")
  obtain st' final' where step: "harvest_step i (st, final) = (st', final')"
    by (cases "harvest_step i (st, final)")
  have a: "grows st st'" "length (knowledge st') = length (knowledge st)"
    using harvest_step_grows [of st i final] step by simp_all
  show ?case
    using Cons.IH [of st' final'] a step by (auto intro: grows_trans)
qed

lemma grows_knowledge_update: "grows st (st\<lparr>knowledge := ks\<rparr>)"
  by (simp add: grows_def)

lemma grows_add_known_safes_and_mines: "grows st (add_known_safes_and_mines st)"
proof -
  obtain st' final where f: "fold harvest_step [0 ..< length (knowledge st)] (st, []) = (st', final)"
    by (cases "fold harvest_step [0 ..< length (knowledge st)] (st, [])")
  have "grows st st'"
    using fold_harvest_step_grows [of st "[0 ..< length (knowledge st)]" "[]"] f by simp
  then show ?thesis
    using f by (auto simp: add_known_safes_and_mines_def intro: grows_trans grows_knowledge_update)
qed

lemma grows_extend_knowledge: "grows st (extend_knowledge (st, infs))"
  by (simp add: extend_knowledge_def remove_duplicates_def grows_def)

lemma set_extend_knowledge:
  "set (knowledge (extend_knowledge (st, infs))) = set (knowledge st) \<union> set infs"
  by (simp add: extend_knowledge_def set_remove_duplicates)

lemma grows_make_inferences: "grows st (fst (make_inferences st))"
  using fold_infer_step_grows [of st] by (simp add: make_inferences_def)

lemma grows_add_sentence: "grows st (add_sentence st cell cnt)"
proof -
  have "grows st (st\<lparr>moves_made := finsert cell (moves_made st)\<rparr>)"
    by (auto simp: grows_def)
  then have "grows st (mark_safe (st\<lparr>moves_made := finsert cell (moves_made st)\<rparr>) cell)"
    by (rule grows_trans [OF _ grows_mark_safe])
  then show ?thesis
    by (auto simp: add_sentence_def split: prod.splits intro: grows_trans grows_knowledge_update)
qed

lemma grows_after_inferences:
  "grows (fst (make_inferences st)) (add_known_safes_and_mines (extend_knowledge (make_inferences st)))"
proof -
  obtain st' infs where m: "make_inferences st = (st', infs)"
    by (cases "make_inferences st")
  show ?thesis
    unfolding m using grows_extend_knowledge [of st' infs] grows_add_known_safes_and_mines
    by (auto intro: grows_trans)
qed

lemma grows_add_knowledge: "grows st (add_knowledge st cell cnt)"
  unfolding add_knowledge_def
  using grows_add_sentence grows_make_inferences grows_after_inferences
  by (blast intro: grows_trans)

lemma make_inferences_split:
  assumes "i < length (knowledge st)"
  shows "make_inferences st =
     fold (infer_step (length (knowledge st) - 1)) [Suc i ..< length (knowledge st)]
       (infer_step (length (knowledge st) - 1) i (before_iteration st i))"
proof -
  have "[0 ..< length (knowledge st)] = [0 ..< i] @ [i ..< length (knowledge st)]"
    using assms by (metis le_add_diff_inverse less_imp_le_nat upt_add_eq_append zero_le)
  also have "[i ..< length (knowledge st)] = i # [Suc i ..< length (knowledge st)]"
    using assms by (simp add: upt_conv_Cons)
  finally show ?thesis by (simp add: make_inferences_def before_iteration_def)
qed

lemma subset_rule_in_loop:
  assumes i: "i < length (knowledge st)"
    and c: "compared (fst (before_iteration st i)) (length (knowledge st) - 1) i A B"
  shows "(count B - count A = 0 \<longrightarrow> cells B |-| cells A |\<subseteq>| safes (fst (make_inferences st))) \<and>
     (count B - count A = int (fcard (cells B |-| cells A)) \<longrightarrow>
        cells B |-| cells A |\<subseteq>| mines (fst (make_inferences st))) \<and>
     (count B - count A \<noteq> 0 \<and> count B - count A \<noteq> int (fcard (cells B |-| cells A)) \<longrightarrow>
        Sentence (cells B |-| cells A) (count B - count A) \<in> set (snd (make_inferences st)))"
proof -
  define k where "k = length (knowledge st) - 1"
  obtain st1 infs1 where b: "before_iteration st i = (st1, infs1)"
    by (cases "before_iteration st i")
  obtain st2 infs2 where s: "infer_step k i (st1, infs1) = (st2, infs2)"
    by (cases "infer_step k i (st1, infs1)")
  have m: "make_inferences st = fold (infer_step k) [Suc i ..< length (knowledge st)] (st2, infs2)"
    using make_inferences_split [OF i] b s by (simp add: k_def)
  have g: "grows st2 (fst (make_inferences st))" and sub: "set infs2 \<subseteq> set (snd (make_inferences st))"
    unfolding m using fold_infer_step_grows [of st2 k _ infs2] by simp_all
  have c': "compared st1 k i A B" using c b by (simp add: k_def)
  note e = infer_step_compared [OF c', of infs1, unfolded s]
  have safe: "cells B |-| cells A |\<subseteq>| safes (fst (make_inferences st))" if "count B - count A = 0"
  proof -
    have "st2 = mark_safe_each st1 (cells B |-| cells A)" using e that by simp
    then have "cells B |-| cells A |\<subseteq>| safes st2" by (simp add: mark_safe_each_eq)
    then show ?thesis using g by (auto simp: grows_def)
  qed
  have mine: "cells B |-| cells A |\<subseteq>| mines (fst (make_inferences st))"
    if d: "count B - count A = int (fcard (cells B |-| cells A))"
  proof (cases "count B - count A = 0")
    case True
    then have "fcard (cells B |-| cells A) = 0" using d by simp
    then have "cells B |-| cells A = {||}" by (simp only: fcard_0_eq)
    then show ?thesis by (metis fempty_fsubsetI)
  next
    case False
    then have "st2 = mark_mine_each st1 (cells B |-| cells A)" using e d by simp
    then have "cells B |-| cells A |\<subseteq>| mines st2" by (simp add: mark_mine_each_eq)
    then show ?thesis using g by (auto simp: grows_def)
  qed
  have inf: "Sentence (cells B |-| cells A) (count B - count A) \<in> set (snd (make_inferences st))"
    if "count B - count A \<noteq> 0" "count B - count A \<noteq> int (fcard (cells B |-| cells A))"
  proof -
    have "infs2 = infs1 @ [Sentence (cells B |-| cells A) (count B - count A)]"
      using e that by simp
    then show ?thesis using sub by auto
  qed
  show ?thesis using safe mine inf by blast
qed

text \<open>
  Claim C5. During \<^verbatim>\<open>add_knowledge\<close>, for every pair \<open>(A, B)\<close> of different sentences
  with \<open>A.cells \<subseteq> B.cells\<close> that an iteration of the inference loop compares, with
  \<open>diff = B.cells - A.cells\<close> and \<open>deltaCount = B.count - A.count\<close>: if
  \<open>deltaCount = 0\<close> every cell of \<open>diff\<close> is marked safe; if \<open>deltaCount = |diff|\<close>
  every cell of \<open>diff\<close> is marked a mine; otherwise the sentence \<open>(diff, deltaCount)\<close> is
  in the store when the inferences have been added, and the store holds no sentence
  twice. From \<open>A = ({(0,0),(0,1)}, 1)\<close> and \<open>B = ({(0,0),(0,1),(0,2)}, 1)\<close> the cell
  \<open>(0,2)\<close> is derived safe, and from \<open>A = ({(0,0)}, 1)\<close> and \<open>B = ({(0,0),(0,1)}, 2)\<close>
  the cell \<open>(0,1)\<close> is derived a mine.
\<close>

theorem subset_inference:
  "(i < length (knowledge (add_sentence st cell cnt)) \<and>
    compared (fst (before_iteration (add_sentence st cell cnt) i))
      (length (knowledge (add_sentence st cell cnt)) - 1) i A B \<longrightarrow>
      (count B - count A = 0 \<longrightarrow> cells B |-| cells A |\<subseteq>| safes (add_knowledge st cell cnt)) \<and>
      (count B - count A = int (fcard (cells B |-| cells A)) \<longrightarrow>
         cells B |-| cells A |\<subseteq>| mines (add_knowledge st cell cnt)) \<and>
      (count B - count A \<noteq> 0 \<and> count B - count A \<noteq> int (fcard (cells B |-| cells A)) \<longrightarrow>
         Sentence (cells B |-| cells A) (count B - count A)
           \<in> set (knowledge (extend_knowledge (make_inferences (add_sentence st cell cnt)))))) \<and>
   distinct (knowledge (extend_knowledge (make_inferences (add_sentence st cell cnt)))) \<and>
   (0, 2) |\<in>| safes (fst (make_inferences subset_example_safe)) \<and>
   (0, 1) |\<in>| mines (fst (make_inferences subset_example_mine))"
proof -
  define st0 where "st0 = add_sentence st cell cnt"
  have g: "grows (fst (make_inferences st0)) (add_knowledge st cell cnt)"
    unfolding add_knowledge_def st0_def by (rule grows_after_inferences)
  have store: "set (snd (make_inferences st0)) \<subseteq> set (knowledge (extend_knowledge (make_inferences st0)))"
    by (cases "make_inferences st0") (simp add: set_extend_knowledge)
  have general: "(count B - count A = 0 \<longrightarrow> cells B |-| cells A |\<subseteq>| safes (add_knowledge st cell cnt)) \<and>
      (count B - count A = int (fcard (cells B |-| cells A)) \<longrightarrow>
         cells B |-| cells A |\<subseteq>| mines (add_knowledge st cell cnt)) \<and>
      (count B - count A \<noteq> 0 \<and> count B - count A \<noteq> int (fcard (cells B |-| cells A)) \<longrightarrow>
         Sentence (cells B |-| cells A) (count B - count A)
           \<in> set (knowledge (extend_knowledge (make_inferences st0))))"
    if "i < length (knowledge st0)"
      and "compared (fst (before_iteration st0 i)) (length (knowledge st0) - 1) i A B"
    using subset_rule_in_loop [OF that] g store by (auto simp: grows_def)
  have d: "distinct (knowledge (extend_knowledge (make_inferences st0)))"
    by (cases "make_inferences st0") (simp add: extend_knowledge_def distinct_remove_duplicates)
  have ex1: "(0, 2) |\<in>| safes (fst (make_inferences subset_example_safe))"
    by code_simp
  have ex2: "(0, 1) |\<in>| mines (fst (make_inferences subset_example_mine))"
    by code_simp
  show ?thesis using general d ex1 ex2 unfolding st0_def by blast
qed

theorem subset_inference_witness:
  "compared (fst (before_iteration (add_sentence observed_2x3 (1, 1) 1) 0))
     (length (knowledge (add_sentence observed_2x3 (1, 1) 1)) - 1) 0
     (Sentence {|(0, 0), (0, 1)|} 1) (Sentence {|(0, 0), (0, 1), (0, 2)|} 1) \<and>
   {|(0, 2)|} |\<subseteq>| safes (add_knowledge observed_2x3 (1, 1) 1) \<and>
   compared (fst (before_iteration (add_sentence (add_knowledge (MinesweeperAI 1 3) (0, 1) 1) (0, 0) 0) 0))
     (length (knowledge (add_sentence (add_knowledge (MinesweeperAI 1 3) (0, 1) 1) (0, 0) 0)) - 1) 0
     (Sentence {||} 0) (Sentence {|(0, 2)|} 1) \<and>
   {|(0, 2)|} |\<subseteq>| mines (add_knowledge (add_knowledge (MinesweeperAI 1 3) (0, 1) 1) (0, 0) 0) \<and>
   compared (fst (before_iteration
        (add_sentence (fold exec [Observe (0, 1) 1, Observe (1, 0) 2] (MinesweeperAI 3 3)) (1, 1) 2) 0))
     (length (knowledge
        (add_sentence (fold exec [Observe (0, 1) 1, Observe (1, 0) 2] (MinesweeperAI 3 3)) (1, 1) 2)) - 1) 0
     (Sentence {|(0, 0), (0, 2), (1, 2)|} 1)
     (Sentence {|(0, 0), (0, 2), (1, 2), (2, 0), (2, 1), (2, 2)|} 2) \<and>
   Sentence {|(2, 0), (2, 1), (2, 2)|} 1 \<in> set (knowledge (extend_knowledge (make_inferences
        (add_sentence (fold exec [Observe (0, 1) 1, Observe (1, 0) 2] (MinesweeperAI 3 3)) (1, 1) 2))))"
proof -
  let ?A1 = "Sentence {|(0, 0), (0, 1)|} 1" and ?B1 = "Sentence {|(0, 0), (0, 1), (0, 2)|} 1"
  let ?s2 = "add_knowledge (MinesweeperAI 1 3) (0, 1) 1"
  let ?A2 = "Sentence {||} 0" and ?B2 = "Sentence {|(0, 2)|} 1"
  let ?s3 = "fold exec [Observe (0, 1) 1, Observe (1, 0) 2] (MinesweeperAI 3 3)"
  let ?A3 = "Sentence {|(0, 0), (0, 2), (1, 2)|} 1"
  let ?B3 = "Sentence {|(0, 0), (0, 2), (1, 2), (2, 0), (2, 1), (2, 2)|} 2"
  have l1: "0 < length (knowledge (add_sentence observed_2x3 (1, 1) 1))" by code_simp
  have c1: "compared (fst (before_iteration (add_sentence observed_2x3 (1, 1) 1) 0))
      (length (knowledge (add_sentence observed_2x3 (1, 1) 1)) - 1) 0 ?A1 ?B1"
    by code_simp
  have v1: "count ?B1 - count ?A1 = 0" by code_simp
  have w1: "cells ?B1 |-| cells ?A1 = {|(0, 2)|}" by code_simp
  have l2: "0 < length (knowledge (add_sentence ?s2 (0, 0) 0))" by code_simp
  have c2: "compared (fst (before_iteration (add_sentence ?s2 (0, 0) 0) 0))
      (length (knowledge (add_sentence ?s2 (0, 0) 0)) - 1) 0 ?A2 ?B2"
    by code_simp
  have v2: "count ?B2 - count ?A2 = int (fcard (cells ?B2 |-| cells ?A2))" by code_simp
  have w2: "cells ?B2 |-| cells ?A2 = {|(0, 2)|}" by code_simp
  have l3: "0 < length (knowledge (add_sentence ?s3 (1, 1) 2))" by code_simp
  have c3: "compared (fst (before_iteration (add_sentence ?s3 (1, 1) 2) 0))
      (length (knowledge (add_sentence ?s3 (1, 1) 2)) - 1) 0 ?A3 ?B3"
    by code_simp
  have v3: "count ?B3 - count ?A3 \<noteq> 0"
    "count ?B3 - count ?A3 \<noteq> int (fcard (cells ?B3 |-| cells ?A3))"
    by code_simp+
  have w3: "Sentence (cells ?B3 |-| cells ?A3) (count ?B3 - count ?A3)
      = Sentence {|(2, 0), (2, 1), (2, 2)|} 1"
    by code_simp
  have "cells ?B1 |-| cells ?A1 |\<subseteq>| safes (add_knowledge observed_2x3 (1, 1) 1)"
    using subset_inference [of 0 observed_2x3 "(1, 1)" 1 ?A1 ?B1] l1 c1 v1 by blast
  then have r1: "{|(0, 2)|} |\<subseteq>| safes (add_knowledge observed_2x3 (1, 1) 1)"
    by (simp only: w1)
  have "cells ?B2 |-| cells ?A2 |\<subseteq>| mines (add_knowledge ?s2 (0, 0) 0)"
    using subset_inference [of 0 ?s2 "(0, 0)" 0 ?A2 ?B2] l2 c2 v2 by blast
  then have r2: "{|(0, 2)|} |\<subseteq>| mines (add_knowledge ?s2 (0, 0) 0)"
    by (simp only: w2)
  have "Sentence (cells ?B3 |-| cells ?A3) (count ?B3 - count ?A3)
      \<in> set (knowledge (extend_knowledge (make_inferences (add_sentence ?s3 (1, 1) 2))))"
    using subset_inference [of 0 ?s3 "(1, 1)" 2 ?A3 ?B3] l3 c3 v3 by blast
  then have r3: "Sentence {|(2, 0), (2, 1), (2, 2)|} 1 \<in> set (knowledge (extend_knowledge (make_inferences
        (add_sentence ?s3 (1, 1) 2))))"
    by (simp only: w3)
  show ?thesis using c1 r1 c2 r2 c3 r3 by blast
qed

section \<open>Soundness on a board\<close>

lemma true_of_strip_safes:
  assumes "true_of M s" and "X |\<inter>| M = {||}"
  shows "true_of M (strip_safes X s)"
proof -
  have "(cells s |-| X) |\<inter>| M = cells s |\<inter>| M" using assms(2) by auto
  then show ?thesis using assms(1) by (simp add: true_of_def strip_safes_def)
qed

lemma fcard_split_mines:
  assumes "X |\<subseteq>| M"
  shows "int (fcard ((C |-| X) |\<inter>| M)) = int (fcard (C |\<inter>| M)) - int (fcard (C |\<inter>| X))"
proof -
  have u: "C |\<inter>| M = ((C |-| X) |\<inter>| M) |\<union>| (C |\<inter>| X)" using assms by auto
  have d: "((C |-| X) |\<inter>| M) |\<inter>| (C |\<inter>| X) = {||}" by auto
  have "fcard (C |\<inter>| M) = fcard ((C |-| X) |\<inter>| M) + fcard (C |\<inter>| X)"
    using fcard_funion_disjoint [OF d] u by simp
  then show ?thesis by simp
qed

lemma true_of_strip_mines:
  assumes "true_of M s" and "X |\<subseteq>| M"
  shows "true_of M (strip_mines X s)"
  using assms(1) fcard_split_mines [OF assms(2), of "cells s"]
  by (simp add: true_of_def strip_mines_def)

lemma sound_mark_safe_each:
  assumes "sound M st" and "X |\<inter>| M = {||}"
  shows "sound M (mark_safe_each st X)"
proof -
  have "(safes st |\<union>| X) |\<inter>| M = {||}" using assms by (auto simp: sound_def)
  moreover have "list_all (true_of M) (map (strip_safes X) (knowledge st))"
    using assms by (simp add: sound_def list_all_iff true_of_strip_safes)
  ultimately show ?thesis using assms(1) by (simp add: sound_def mark_safe_each_eq)
qed

lemma sound_mark_mine_each:
  assumes "sound M st" and "X |\<subseteq>| M"
  shows "sound M (mark_mine_each st X)"
proof -
  have "mines st |\<union>| X |\<subseteq>| M" using assms by (auto simp: sound_def)
  moreover have "list_all (true_of M) (map (strip_mines X) (knowledge st))"
    using assms by (simp add: sound_def list_all_iff true_of_strip_mines)
  ultimately show ?thesis using assms(1) by (simp add: sound_def mark_mine_each_eq)
qed

lemma sound_mark_safe: "sound M st \<Longrightarrow> c |\<notin>| M \<Longrightarrow> sound M (mark_safe st c)"
  using sound_mark_safe_each [of M st "{|c|}"]
  by (simp add: mark_safe_each_eq mark_safe_eq)

lemma sound_mark_mine: "sound M st \<Longrightarrow> c |\<in>| M \<Longrightarrow> sound M (mark_mine st c)"
  using sound_mark_mine_each [of M st "{|c|}"]
  by (simp add: mark_mine_each_eq mark_mine_eq)

lemma subset_rule_count:
  assumes "true_of M A" and "true_of M B" and "cells A |\<subseteq>| cells B"
  shows "int (fcard ((cells B |-| cells A) |\<inter>| M)) = count B - count A"
proof -
  have u: "cells B |\<inter>| M = ((cells B |-| cells A) |\<inter>| M) |\<union>| (cells A |\<inter>| M)"
    using assms(3) by auto
  have d: "((cells B |-| cells A) |\<inter>| M) |\<inter>| (cells A |\<inter>| M) = {||}" by auto
  have "fcard (cells B |\<inter>| M) = fcard ((cells B |-| cells A) |\<inter>| M) + fcard (cells A |\<inter>| M)"
    using fcard_funion_disjoint [OF d] u by simp
  then show ?thesis using assms(1,2) by (simp add: true_of_def)
qed

lemma subset_rule_safe:
  assumes "true_of M A" and "true_of M B" and "cells A |\<subseteq>| cells B" and "count B - count A = 0"
  shows "(cells B |-| cells A) |\<inter>| M = {||}"
proof -
  have "fcard ((cells B |-| cells A) |\<inter>| M) = 0"
    using subset_rule_count [OF assms(1-3)] assms(4) by simp
  then show ?thesis by (simp only: fcard_0_eq)
qed

lemma subset_rule_mine:
  assumes "true_of M A" and "true_of M B" and "cells A |\<subseteq>| cells B"
    and "count B - count A = int (fcard (cells B |-| cells A))"
  shows "cells B |-| cells A |\<subseteq>| M"
proof -
  have "fcard (cells B |-| cells A) \<le> fcard ((cells B |-| cells A) |\<inter>| M)"
    using subset_rule_count [OF assms(1-3)] assms(4) by simp
  moreover have "(cells B |-| cells A) |\<inter>| M |\<subseteq>| cells B |-| cells A" by auto
  ultimately have "(cells B |-| cells A) |\<inter>| M = cells B |-| cells A"
    by (rule fcard_seteq [rotated])
  then show ?thesis by (metis inf.cobounded2)
qed

lemma subset_rule_inference:
  assumes "true_of M A" and "true_of M B" and "cells A |\<subseteq>| cells B"
  shows "true_of M (Sentence (cells B |-| cells A) (count B - count A))"
  using subset_rule_count [OF assms] by (simp add: true_of_def Sentence_def)

lemma infer_step_sound:
  assumes s: "sound M st" and t: "list_all (true_of M) infs"
    and i: "i < length (knowledge st)" and k: "k < length (knowledge st)"
  shows "sound M (fst (infer_step k i (st, infs))) \<and> list_all (true_of M) (snd (infer_step k i (st, infs)))"
proof -
  consider (skip) "infer_step k i (st, infs) = (st, infs)"
    | (rule) A B where "compared st k i A B" "A \<in> {knowledge st ! i, knowledge st ! k}"
        "B \<in> {knowledge st ! i, knowledge st ! k}"
    using infer_step_skip_or_compared [of k i st infs] by blast
  then show ?thesis
  proof cases
    case skip
    then show ?thesis using s t by simp
  next
    case rule
    have all: "\<And>x. x \<in> set (knowledge st) \<Longrightarrow> true_of M x"
      using s by (simp add: sound_def list_all_iff)
    have m: "knowledge st ! i \<in> set (knowledge st)" "knowledge st ! k \<in> set (knowledge st)"
      using i k by simp_all
    have A: "true_of M A" and B: "true_of M B"
      using rule(2,3) all m by auto
    have sub: "cells A |\<subseteq>| cells B" using rule(1) by (simp add: compared_def)
    show ?thesis
      unfolding infer_step_compared [OF rule(1)]
      using s t sound_mark_safe_each [OF s subset_rule_safe [OF A B sub]]
        sound_mark_mine_each [OF s subset_rule_mine [OF A B sub]]
        subset_rule_inference [OF A B sub]
      by auto
  qed
qed

lemma fold_infer_step_sound:
  assumes "sound M st" and "list_all (true_of M) infs"
    and "\<forall>i \<in> set is. i < length (knowledge st)" and "k < length (knowledge st)"
  shows "sound M (fst (fold (infer_step k) is (st, infs))) \<and>
         list_all (true_of M) (snd (fold (infer_step k) is (st, infs)))"
  using assms
proof (induction "is" arbitrary: st infs)
  case Nil
  then show ?case by simp
next
  case (Cons i "is")
  obtain st' infs' where step: "infer_step k i (st, infs) = (st', infs')"
    by (cases "infer_step k i (st, infs)")
  have a: "sound M st'" "list_all (true_of M) infs'"
    using infer_step_sound [of M st infs i k] Cons.prems step by simp_all
  have l: "length (knowledge st') = length (knowledge st)"
    using infer_step_grows [of st k i infs] step by simp
  show ?case
    using Cons.IH [of st' infs'] a l Cons.prems step by simp
qed

lemma make_inferences_sound:
  assumes "sound M st" and "knowledge st \<noteq> []"
  shows "sound M (fst (make_inferences st)) \<and> list_all (true_of M) (snd (make_inferences st))"
  unfolding make_inferences_def
  using assms by (intro fold_infer_step_sound) simp_all

lemma extend_knowledge_sound:
  assumes "sound M (fst p)" and "list_all (true_of M) (snd p)"
  shows "sound M (extend_knowledge p)"
proof -
  obtain st infs where p: "p = (st, infs)" by (cases p)
  have "list_all (true_of M) (knowledge (extend_knowledge (st, infs)))"
    using assms p by (auto simp: list_all_iff set_extend_knowledge sound_def)
  moreover have "mines (extend_knowledge (st, infs)) = mines st"
    "safes (extend_knowledge (st, infs)) = safes st"
    by (simp_all add: extend_knowledge_def remove_duplicates_def)
  ultimately show ?thesis using assms(1) p by (simp add: sound_def)
qed

lemma conclusive_safe_sound:
  assumes "true_of M s" and "count s = 0"
  shows "cells s |\<inter>| M = {||}"
proof -
  have "fcard (cells s |\<inter>| M) = 0" using assms by (simp add: true_of_def)
  then show ?thesis by (simp only: fcard_0_eq)
qed

lemma conclusive_mine_sound:
  assumes "true_of M s" and "int (fcard (cells s)) = count s"
  shows "cells s |\<subseteq>| M"
proof -
  have "fcard (cells s) \<le> fcard (cells s |\<inter>| M)" using assms by (simp add: true_of_def)
  moreover have "cells s |\<inter>| M |\<subseteq>| cells s" by auto
  ultimately have "cells s |\<inter>| M = cells s" by (rule fcard_seteq [rotated])
  then show ?thesis by (metis inf.cobounded2)
qed

lemma harvest_step_sound:
  assumes s: "sound M st" and i: "i < length (knowledge st)"
  shows "sound M (fst (harvest_step i (st, final)))"
proof -
  have t: "true_of M (knowledge st ! i)"
    using s i by (simp add: sound_def list_all_length)
  have a: "sound M (mark_safe_each st (cells (knowledge st ! i)))" if "count (knowledge st ! i) = 0"
    using sound_mark_safe_each [OF s conclusive_safe_sound [OF t that]] .
  have b: "sound M (mark_mine_each st' (cells (knowledge st ! i)))"
    if "int (fcard (cells (knowledge st ! i))) = count (knowledge st ! i)" "sound M st'" for st'
    using sound_mark_mine_each [OF that(2) conclusive_mine_sound [OF t that(1)]] .
  show ?thesis
    using s a b
    by (auto simp: harvest_step_def known_safes_def known_mines_def split: option.splits)
qed

lemma harvest_step_final:
  "set (snd (harvest_step i (st, final))) \<subseteq> insert i (set final)"
  by (auto simp: harvest_step_def split: option.splits)

lemma fold_harvest_step_sound:
  assumes "sound M st" and "\<forall>i \<in> set is. i < length (knowledge st)"
    and "\<forall>i \<in> set final. i < length (knowledge st)"
  shows "sound M (fst (fold harvest_step is (st, final))) \<and>
     (\<forall>i \<in> set (snd (fold harvest_step is (st, final))). i < length (knowledge st))"
  using assms
proof (induction "is" arbitrary: st final)
  case Nil
  then show ?case by simp
next
  case (Cons i "is")
  obtain st' final' where step: "harvest_step i (st, final) = (st', final')"
    by (cases "harvest_step i (st, final)")
  have a: "sound M st'"
    using harvest_step_sound [of M st i final] Cons.prems step by simp
  have l: "length (knowledge st') = length (knowledge st)"
    using harvest_step_grows [of st i final] step by simp
  have f: "\<forall>j \<in> set final'. j < length (knowledge st)"
    using harvest_step_final [of i st final] step Cons.prems by auto
  show ?case
    using Cons.IH [of st' final'] a l f Cons.prems step by simp
qed

lemma add_known_safes_and_mines_sound:
  assumes "sound M st"
  shows "sound M (add_known_safes_and_mines st)"
proof -
  obtain st' final where f: "fold harvest_step [0 ..< length (knowledge st)] (st, []) = (st', final)"
    by (cases "fold harvest_step [0 ..< length (knowledge st)] (st, [])")
  have a: "sound M st'" "\<forall>i \<in> set final. i < length (knowledge st)"
    using fold_harvest_step_sound [OF assms, of "[0 ..< length (knowledge st)]" "[]"] f by simp_all
  have l: "length (knowledge st') = length (knowledge st)"
    using fold_harvest_step_grows [of st "[0 ..< length (knowledge st)]" "[]"] f by simp
  have "list_all (true_of M) (map (\<lambda>i. knowledge st' ! i) final)"
    using a l by (simp add: list_all_iff sound_def list_all_length)
  then show ?thesis
    using a(1) f by (simp add: add_known_safes_and_mines_def sound_def)
qed

section \<open>The new sentence\<close>

lemma fold_product:
  "fold (\<lambda>row acc. fold (\<lambda>col. f (row, col)) cols acc) rows acc = fold f (List.product rows cols) acc"
proof (induction rows arbitrary: acc)
  case Nil
  show ?case by simp
next
  case (Cons r rows)
  have "fold (\<lambda>col. f (r, col)) cols acc = fold f (map (Pair r) cols) acc"
    by (simp add: fold_map o_def)
  then show ?case using Cons.IH by simp
qed

lemma fold_scan_cell:
  "fold (scan_cell st cell) L (cs, n) =
     (cs @ filter (\<lambda>rc. rc |\<notin>| mines st \<and> rc |\<notin>| safes st)
            (filter (\<lambda>rc. 0 \<le> fst rc \<and> fst rc < height st \<and> 0 \<le> snd rc \<and> snd rc < width st \<and> rc \<noteq> cell) L),
      n - int (length (filter (\<lambda>rc. rc |\<in>| mines st)
            (filter (\<lambda>rc. 0 \<le> fst rc \<and> fst rc < height st \<and> 0 \<le> snd rc \<and> snd rc < width st \<and> rc \<noteq> cell) L))))"
  by (induction L arbitrary: cs n) (simp_all add: scan_cell_def)

lemma scan_neighbours_eq:
  "scan_neighbours st cell cnt =
     (filter (\<lambda>rc. rc |\<notin>| mines st \<and> rc |\<notin>| safes st) (neighbours st cell),
      cnt - int (length (filter (\<lambda>rc. rc |\<in>| mines st) (neighbours st cell))))"
  by (cases cell) (simp add: scan_neighbours_def fold_product fold_scan_cell neighbours_def)

lemma fold_nearby:
  "fold (\<lambda>rc cnt'. if rc = cell then cnt'
             else if 0 \<le> fst rc \<and> fst rc < h \<and> 0 \<le> snd rc \<and> snd rc < w
               then (if rc |\<in>| M then cnt' + 1 else cnt')
             else cnt') L n =
     n + int (length (filter (\<lambda>rc. rc |\<in>| M)
            (filter (\<lambda>rc. 0 \<le> fst rc \<and> fst rc < h \<and> 0 \<le> snd rc \<and> snd rc < w \<and> rc \<noteq> cell) L)))"
  by (induction L arbitrary: n) simp_all

lemma nearby_mines_eq:
  "nearby_mines (height st) (width st) M cell
     = int (length (filter (\<lambda>rc. rc |\<in>| M) (neighbours st cell)))"
proof -
  have "nearby_mines (height st) (width st) M cell =
      fold (\<lambda>rc cnt'. if rc = cell then cnt'
             else if 0 \<le> fst rc \<and> fst rc < height st \<and> 0 \<le> snd rc \<and> snd rc < width st
               then (if rc |\<in>| M then cnt' + 1 else cnt')
             else cnt')
        (List.product [fst cell - 1 .. fst cell + 1] [snd cell - 1 .. snd cell + 1]) 0"
    unfolding nearby_mines_def by (subst fold_product [symmetric]) (simp cong: if_cong)
  then show ?thesis by (simp add: fold_nearby neighbours_def)
qed

lemma distinct_neighbours: "distinct (neighbours st cell)"
  by (simp add: neighbours_def distinct_product)

lemma fcard_fset_of_list_distinct: "distinct xs \<Longrightarrow> fcard (fset_of_list xs) = length xs"
  by (simp add: fcard.rep_eq fset_of_list.rep_eq distinct_card)

lemma new_sentence_true:
  assumes m: "mines st |\<subseteq>| M" and s: "safes st |\<inter>| M = {||}" and d: "distinct L"
  shows "true_of M (Sentence (fset_of_list (filter (\<lambda>rc. rc |\<notin>| mines st \<and> rc |\<notin>| safes st) L))
            (int (length (filter (\<lambda>rc. rc |\<in>| M) L)) - int (length (filter (\<lambda>rc. rc |\<in>| mines st) L))))"
proof -
  let ?U = "filter (\<lambda>rc. rc |\<notin>| mines st \<and> rc |\<notin>| safes st) L"
  have inM: "rc |\<in>| M \<Longrightarrow> rc |\<notin>| safes st" for rc using s by auto
  have e: "fset_of_list ?U |\<inter>| M = fset_of_list (filter (\<lambda>rc. rc |\<in>| M \<and> rc |\<notin>| mines st) L)"
    using inM by (auto simp: fset_of_list_elem)
  have dV: "distinct (filter (\<lambda>rc. rc |\<in>| M \<and> rc |\<notin>| mines st) L)" using d by simp
  have c: "fcard (fset_of_list ?U |\<inter>| M) = length (filter (\<lambda>rc. rc |\<in>| M \<and> rc |\<notin>| mines st) L)"
    unfolding e by (rule fcard_fset_of_list_distinct [OF dV])
  have "length (filter (\<lambda>rc. rc |\<in>| M) L) =
      length (filter (\<lambda>rc. rc |\<in>| M \<and> rc |\<notin>| mines st) L) + length (filter (\<lambda>rc. rc |\<in>| mines st) L)"
    using m
  proof (induction L)
    case Nil
    show ?case by simp
  next
    case (Cons a L)
    then show ?case by auto
  qed
  then show ?thesis using c by (simp add: true_of_def Sentence_def)
qed

lemma add_sentence_sound:
  assumes s: "sound M st" and c: "cell |\<notin>| M"
    and n: "cnt = nearby_mines (height st) (width st) M cell"
  shows "sound M (add_sentence st cell cnt) \<and> knowledge (add_sentence st cell cnt) \<noteq> []"
proof -
  define st1 where "st1 = mark_safe (st\<lparr>moves_made := finsert cell (moves_made st)\<rparr>) cell"
  have "sound M (st\<lparr>moves_made := finsert cell (moves_made st)\<rparr>)"
    using s by (simp add: sound_def)
  then have s1: "sound M st1"
    unfolding st1_def using c by (rule sound_mark_safe)
  have hw: "height st1 = height st" "width st1 = width st"
    by (simp_all add: st1_def mark_safe_eq)
  have nb: "neighbours st1 cell = neighbours st cell"
    by (simp add: neighbours_def hw)
  have n': "cnt = int (length (filter (\<lambda>rc. rc |\<in>| M) (neighbours st1 cell)))"
    using n by (simp add: nearby_mines_eq nb)
  have t: "true_of M (Sentence (fset_of_list (fst (scan_neighbours st1 cell cnt)))
                        (snd (scan_neighbours st1 cell cnt)))"
    unfolding scan_neighbours_eq n' fst_conv snd_conv
    using s1 by (intro new_sentence_true distinct_neighbours) (simp_all add: sound_def)
  have e: "add_sentence st cell cnt =
      st1\<lparr>knowledge := knowledge st1 @ [Sentence (fset_of_list (fst (scan_neighbours st1 cell cnt)))
                        (snd (scan_neighbours st1 cell cnt))]\<rparr>"
    by (simp add: add_sentence_def st1_def split: prod.splits)
  show ?thesis
    unfolding e using s1 t by (simp add: sound_def)
qed

lemma add_knowledge_sound:
  assumes "sound M st" and "cell |\<notin>| M" and "cnt = nearby_mines (height st) (width st) M cell"
  shows "sound M (add_knowledge st cell cnt)"
proof -
  note a = add_sentence_sound [OF assms]
  note b = make_inferences_sound [OF a [THEN conjunct1] a [THEN conjunct2]]
  show ?thesis
    unfolding add_knowledge_def
    by (intro add_known_safes_and_mines_sound extend_knowledge_sound b [THEN conjunct1] b [THEN conjunct2])
qed

lemma exec_sound: "sound M st \<Longrightarrow> permitted M st c \<Longrightarrow> sound M (exec c st)"
  by (cases c) (simp_all add: add_knowledge_sound sound_mark_mine)

lemma exec_grows: "grows st (exec c st)"
  by (cases c) (simp_all add: grows_add_knowledge grows_mark_mine)

lemma fold_exec_sound:
  "sound M st \<Longrightarrow> permitted_all M st cs \<Longrightarrow> sound M (fold exec cs st)"
  by (induction cs arbitrary: st) (simp_all add: exec_sound)

lemma fold_exec_grows: "grows st (fold exec cs st)"
proof (induction cs arbitrary: st)
  case Nil
  show ?case by (simp add: grows_refl)
next
  case (Cons c cs)
  show ?case using exec_grows [of st c] Cons.IH [of "exec c st"] by (auto intro: grows_trans)
qed

lemma permitted_all_append:
  "permitted_all M st (cs @ ds) \<longleftrightarrow> permitted_all M st cs \<and> permitted_all M (fold exec cs st) ds"
  by (induction cs arbitrary: st) simp_all

lemma sound_initial: "sound M (MinesweeperAI h w)"
  by (simp add: sound_def MinesweeperAI_def)

lemma sound_disjoint: "sound M st \<Longrightarrow> safes st |\<inter>| mines st = {||}"
  by (auto simp: sound_def)

text \<open>
  Claim C4. For every sequence of \<^verbatim>\<open>add_knowledge\<close> and \<^verbatim>\<open>mark_mine\<close> calls that keeps
  the documented preconditions on a board \<open>M\<close> (an observed cell is no mine of the board
  and its count is the number of mines among its in-bounds neighbours; a cell marked
  directly as a mine is a mine of the board), in the state after any part \<open>cs\<close> of the
  sequence \<open>safes\<close> and \<open>mines\<close> are disjoint, and after the further calls \<open>ds\<close> every
  cell of \<open>safes\<close> is still in \<open>safes\<close>, every cell of \<open>mines\<close> still in \<open>mines\<close>, and
  none has appeared in the other set.
\<close>

theorem safes_mines_disjoint_growing:
  "permitted_all M (MinesweeperAI h w) (cs @ ds) \<Longrightarrow>
     safes (fold exec cs (MinesweeperAI h w)) |\<inter>| mines (fold exec cs (MinesweeperAI h w)) = {||} \<and>
     safes (fold exec cs (MinesweeperAI h w)) |\<subseteq>| safes (fold exec (cs @ ds) (MinesweeperAI h w)) \<and>
     mines (fold exec cs (MinesweeperAI h w)) |\<subseteq>| mines (fold exec (cs @ ds) (MinesweeperAI h w)) \<and>
     safes (fold exec cs (MinesweeperAI h w)) |\<inter>| mines (fold exec (cs @ ds) (MinesweeperAI h w)) = {||} \<and>
     mines (fold exec cs (MinesweeperAI h w)) |\<inter>| safes (fold exec (cs @ ds) (MinesweeperAI h w)) = {||}"
proof -
  assume p: "permitted_all M (MinesweeperAI h w) (cs @ ds)"
  define st where "st = fold exec cs (MinesweeperAI h w)"
  define st' where "st' = fold exec (cs @ ds) (MinesweeperAI h w)"
  have pc: "permitted_all M (MinesweeperAI h w) cs"
    using p by (simp add: permitted_all_append)
  have s: "sound M st"
    unfolding st_def by (rule fold_exec_sound [OF sound_initial pc])
  have s': "sound M st'"
    unfolding st'_def by (rule fold_exec_sound [OF sound_initial p])
  have "st' = fold exec ds st" by (simp add: st_def st'_def)
  then have g: "grows st st'" using fold_exec_grows [of st ds] by simp
  have "safes st |\<inter>| mines st = {||}" using s by (rule sound_disjoint)
  moreover have "safes st |\<subseteq>| safes st'" "mines st |\<subseteq>| mines st'"
    using g by (simp_all add: grows_def)
  moreover have "safes st |\<inter>| mines st' = {||}" "mines st |\<inter>| safes st' = {||}"
    using s s' by (auto simp: sound_def)
  ultimately show ?thesis unfolding st_def st'_def by blast
qed

theorem safes_mines_disjoint_growing_witness:
  "permitted_all board_3x3 (MinesweeperAI 3 3) ([Observe (0, 1) 1, Observe (1, 0) 2] @ [Observe (1, 1) 2, MarkMine (2, 0)]) \<and>
   safes (fold exec [Observe (0, 1) 1, Observe (1, 0) 2] (MinesweeperAI 3 3)) = {|(0, 1), (1, 0)|} \<and>
   mines (fold exec ([Observe (0, 1) 1, Observe (1, 0) 2] @ [Observe (1, 1) 2, MarkMine (2, 0)]) (MinesweeperAI 3 3))
     = {|(0, 0), (2, 0)|} \<and>
   safes (fold exec [Observe (0, 1) 1, Observe (1, 0) 2] (MinesweeperAI 3 3))
     |\<inter>| mines (fold exec ([Observe (0, 1) 1, Observe (1, 0) 2] @ [Observe (1, 1) 2, MarkMine (2, 0)]) (MinesweeperAI 3 3))
     = {||} \<and>
   safes (fold exec [Observe (0, 1) 1, Observe (1, 0) 2] (MinesweeperAI 3 3))
     |\<subseteq>| safes (fold exec ([Observe (0, 1) 1, Observe (1, 0) 2] @ [Observe (1, 1) 2, MarkMine (2, 0)]) (MinesweeperAI 3 3))"
proof -
  have p: "permitted_all board_3x3 (MinesweeperAI 3 3)
      ([Observe (0, 1) 1, Observe (1, 0) 2] @ [Observe (1, 1) 2, MarkMine (2, 0)])"
    by code_simp
  have a: "safes (fold exec [Observe (0, 1) 1, Observe (1, 0) 2] (MinesweeperAI 3 3)) = {|(0, 1), (1, 0)|}"
    by code_simp
  have b: "mines (fold exec ([Observe (0, 1) 1, Observe (1, 0) 2] @ [Observe (1, 1) 2, MarkMine (2, 0)])
      (MinesweeperAI 3 3)) = {|(0, 0), (2, 0)|}"
    by code_simp
  show ?thesis
    using safes_mines_disjoint_growing [OF p] p a b by blast
qed

section \<open>One pass of inference and harvest\<close>

lemma harvest_step_not_conclusive:
  assumes "\<not> conclusive (knowledge st ! i)"
  shows "harvest_step i (st, final) = (st, final @ [i])"
  using assms by (auto simp: harvest_step_def conclusive_def split: option.splits)

lemma harvest_step_conclusive:
  assumes "conclusive (knowledge st ! i)"
  shows "snd (harvest_step i (st, final)) = final"
  using assms by (auto simp: harvest_step_def conclusive_def split: option.splits)

lemma harvest_step_length: "length (snd (harvest_step i (st, final))) \<le> Suc (length final)"
  by (auto simp: harvest_step_def split: option.splits)

lemma fold_harvest_step_length:
  "length (snd (fold harvest_step is (st, final))) \<le> length final + length is"
proof (induction "is" arbitrary: st final)
  case Nil
  show ?case by simp
next
  case (Cons i "is")
  obtain st' final' where step: "harvest_step i (st, final) = (st', final')"
    by (cases "harvest_step i (st, final)")
  have "length final' \<le> Suc (length final)"
    using harvest_step_length [of i st final] step by simp
  then show ?case using Cons.IH [of st' final'] step by simp
qed

lemma fold_harvest_step_none:
  "\<forall>i \<in> set is. \<not> conclusive (knowledge st ! i) \<Longrightarrow>
     fold harvest_step is (st, final) = (st, final @ is)"
  by (induction "is" arbitrary: final) (simp_all add: harvest_step_not_conclusive)

lemma fold_harvest_step_some:
  "\<exists>i \<in> set is. conclusive (knowledge st ! i) \<Longrightarrow>
     length (snd (fold harvest_step is (st, final))) < length final + length is"
proof (induction "is" arbitrary: final)
  case Nil
  then show ?case by simp
next
  case (Cons i "is")
  show ?case
  proof (cases "conclusive (knowledge st ! i)")
    case True
    obtain st' where step: "harvest_step i (st, final) = (st', final)"
      using harvest_step_conclusive [OF True, of final] by (cases "harvest_step i (st, final)") simp
    show ?thesis
      using fold_harvest_step_length [of "is" st' final] step by simp
  next
    case False
    then have "\<exists>j \<in> set is. conclusive (knowledge st ! j)" using Cons.prems by auto
    then show ?thesis
      using Cons.IH [of "final @ [i]"] False by (simp add: harvest_step_not_conclusive)
  qed
qed

lemma harvest_unchanged_iff:
  "add_known_safes_and_mines st = st \<longleftrightarrow> (\<forall>s \<in> set (knowledge st). \<not> conclusive s)"
proof
  assume none: "\<forall>s \<in> set (knowledge st). \<not> conclusive s"
  then have "\<forall>i \<in> set [0 ..< length (knowledge st)]. \<not> conclusive (knowledge st ! i)"
    by simp
  then have "fold harvest_step [0 ..< length (knowledge st)] (st, [])
      = (st, [0 ..< length (knowledge st)])"
    using fold_harvest_step_none [of "[0 ..< length (knowledge st)]" st "[]"] by simp
  then show "add_known_safes_and_mines st = st"
    by (simp add: add_known_safes_and_mines_def map_nth)
next
  assume same: "add_known_safes_and_mines st = st"
  show "\<forall>s \<in> set (knowledge st). \<not> conclusive s"
  proof (rule ccontr)
    assume "\<not> (\<forall>s \<in> set (knowledge st). \<not> conclusive s)"
    then obtain i where "i < length (knowledge st)" "conclusive (knowledge st ! i)"
      by (auto simp: in_set_conv_nth)
    then have "\<exists>i \<in> set [0 ..< length (knowledge st)]. conclusive (knowledge st ! i)"
      by auto
    then have less: "length (snd (fold harvest_step [0 ..< length (knowledge st)] (st, [])))
        < length (knowledge st)"
      using fold_harvest_step_some [of "[0 ..< length (knowledge st)]" st "[]"] by simp
    have "length (knowledge (add_known_safes_and_mines st))
        = length (snd (fold harvest_step [0 ..< length (knowledge st)] (st, [])))"
      by (simp add: add_known_safes_and_mines_def split: prod.splits)
    then show False using less same by simp
  qed
qed

text \<open>
  Claim C1: every state that a completed \<^verbatim>\<open>add_knowledge\<close> returns is at the fixed point
  of saturation, so that one more pass (the subset rule on the pairs of different stored
  sentences, then the harvest) changes neither \<open>safes\<close> nor \<open>mines\<close> nor the store. The
  docstring of \<^verbatim>\<open>add_knowledge\<close> asks for it: mark any additional cells as safe or as
  mines if it can be concluded from the knowledge base, add any new sentences that can
  be inferred. The code does not reach the fixed point, on two games that keep the
  documented preconditions.

  On the board of 1 row and 5 columns with the mines \<open>(0,2)\<close> and \<open>(0,4)\<close>, after the
  cells \<open>(0,1)\<close> and \<open>(0,3)\<close> have been observed, the harvest has kept the sentence of
  the first call before the marks of the second sentence made it conclusive: the store
  is \<open>[({(0,0)}, 0)]\<close>, the cell \<open>(0,0)\<close> is not in \<open>safes\<close>, no safe move is offered,
  and harvesting again marks \<open>(0,0)\<close> safe and empties the store.

  On the board of 2 rows and 4 columns with the mines \<open>(0,0)\<close>, \<open>(0,1)\<close>, \<open>(1,3)\<close>,
  after the cells \<open>(1,0)\<close>, \<open>(0,2)\<close>, \<open>(0,3)\<close> have been observed, the store holds the
  different sentences \<open>A = ({(0,1),(1,1)}, 1)\<close> and \<open>B = ({(0,0),(0,1),(1,1)}, 2)\<close> with
  \<open>A.cells \<subseteq> B.cells\<close> and \<open>deltaCount = 1 = |diff|\<close>; the loop never compared them,
  since neither was the new sentence. The subset rule, applied to this pair, marks the
  cell \<open>(0,0)\<close> as a mine, which \<open>mines\<close> does not hold.
\<close>

theorem observe_not_fixed_point:
  "permitted_all board_1x5 (MinesweeperAI 1 5) calls_1x5 \<and>
   knowledge observed_1x5 = [Sentence {|(0, 0)|} 0] \<and>
   conclusive (Sentence {|(0, 0)|} 0) \<and>
   (0, 0) |\<notin>| safes observed_1x5 \<and>
   fst (make_safe_move 0 observed_1x5) = None \<and>
   (0, 0) |\<in>| safes (add_known_safes_and_mines observed_1x5) \<and>
   knowledge (add_known_safes_and_mines observed_1x5) = [] \<and>
   permitted_all board_2x4 (MinesweeperAI 2 4) calls_2x4 \<and>
   knowledge observed_2x4 =
     [Sentence {|(0, 0), (0, 1), (1, 1)|} 2, Sentence {|(0, 1), (1, 1), (1, 2), (1, 3)|} 2,
      Sentence {|(1, 2), (1, 3)|} 1, Sentence {|(0, 1), (1, 1)|} 1] \<and>
   Sentence {|(0, 1), (1, 1)|} 1 \<noteq> Sentence {|(0, 0), (0, 1), (1, 1)|} 2 \<and>
   cells (Sentence {|(0, 1), (1, 1)|} 1) |\<subseteq>| cells (Sentence {|(0, 0), (0, 1), (1, 1)|} 2) \<and>
   count (Sentence {|(0, 0), (0, 1), (1, 1)|} 2) - count (Sentence {|(0, 1), (1, 1)|} 1)
     = int (fcard (cells (Sentence {|(0, 0), (0, 1), (1, 1)|} 2) |-| cells (Sentence {|(0, 1), (1, 1)|} 1))) \<and>
   (0, 0) |\<in>| cells (Sentence {|(0, 0), (0, 1), (1, 1)|} 2) |-| cells (Sentence {|(0, 1), (1, 1)|} 1) \<and>
   (0, 0) |\<notin>| mines observed_2x4 \<and>
   (0, 0) |\<in>| mines (fst (infer_step 0 3 (observed_2x4, [])))"
  by code_simp

section \<open>Sentences with no cell\<close>

lemma strip_safes_no_cell: "cells e = {||} \<Longrightarrow> strip_safes X e = e"
  by (simp add: strip_safes_def)

lemma strip_mines_no_cell: "cells e = {||} \<Longrightarrow> strip_mines X e = e"
  by (simp add: strip_mines_def fcard_fempty)

lemma not_conclusive_no_cell: "cells e = {||} \<Longrightarrow> \<not> conclusive e"
  by (simp add: conclusive_def known_safes_def known_mines_def)

lemma mark_safe_each_keeps:
  "cells e = {||} \<Longrightarrow> j < length (knowledge st) \<Longrightarrow> knowledge st ! j = e \<Longrightarrow>
     knowledge (mark_safe_each st X) ! j = e"
  by (simp add: mark_safe_each_eq strip_safes_no_cell)

lemma mark_mine_each_keeps:
  "cells e = {||} \<Longrightarrow> j < length (knowledge st) \<Longrightarrow> knowledge st ! j = e \<Longrightarrow>
     knowledge (mark_mine_each st X) ! j = e"
  by (simp add: mark_mine_each_eq strip_mines_no_cell)

lemma infer_step_keeps:
  assumes "cells e = {||}" and "j < length (knowledge st)" and "knowledge st ! j = e"
  shows "knowledge (fst (infer_step k i (st, infs))) ! j = e"
proof -
  consider (skip) "infer_step k i (st, infs) = (st, infs)"
    | (rule) A B where "compared st k i A B"
    using infer_step_skip_or_compared [of k i st infs] by blast
  then show ?thesis
  proof cases
    case skip
    then show ?thesis using assms by simp
  next
    case rule
    show ?thesis
      unfolding infer_step_compared [OF rule]
      using assms by (simp add: mark_safe_each_keeps mark_mine_each_keeps)
  qed
qed

lemma fold_infer_step_keeps:
  assumes "cells e = {||}"
  shows "j < length (knowledge st) \<Longrightarrow> knowledge st ! j = e \<Longrightarrow>
     knowledge (fst (fold (infer_step k) is (st, infs))) ! j = e"
proof (induction "is" arbitrary: st infs)
  case Nil
  then show ?case by simp
next
  case (Cons i "is")
  obtain st' infs' where step: "infer_step k i (st, infs) = (st', infs')"
    by (cases "infer_step k i (st, infs)")
  have a: "knowledge st' ! j = e"
    using infer_step_keeps [OF assms Cons.prems, of k i infs] step by simp
  have l: "j < length (knowledge st')"
    using infer_step_grows [of st k i infs] step Cons.prems(1) by simp
  show ?case using Cons.IH [OF l a, of infs'] step by simp
qed

lemma make_inferences_keeps:
  assumes "cells e = {||}" and "e \<in> set (knowledge st)"
  shows "e \<in> set (knowledge (fst (make_inferences st)))"
proof -
  obtain j where j: "j < length (knowledge st)" "knowledge st ! j = e"
    using assms(2) by (auto simp: in_set_conv_nth)
  have "knowledge (fst (make_inferences st)) ! j = e"
    unfolding make_inferences_def by (rule fold_infer_step_keeps [OF assms(1) j])
  moreover have "j < length (knowledge (fst (make_inferences st)))"
    unfolding make_inferences_def using fold_infer_step_grows [of st] j(1) by simp
  ultimately show ?thesis by (metis nth_mem)
qed

lemma harvest_step_keeps:
  assumes "cells e = {||}" and "j < length (knowledge st)" and "knowledge st ! j = e"
  shows "knowledge (fst (harvest_step i (st, final))) ! j = e \<and>
     set final \<subseteq> set (snd (harvest_step i (st, final))) \<and>
     (i = j \<longrightarrow> j \<in> set (snd (harvest_step i (st, final))))"
proof -
  have a: "knowledge (mark_mine_each (mark_safe_each st X) Y) ! j = e" for X Y
    using assms by (simp add: mark_mine_each_keeps mark_safe_each_keeps length_mark_safe_each)
  have b: "i = j \<Longrightarrow> harvest_step i (st, final) = (st, final @ [i])"
    using assms not_conclusive_no_cell [OF assms(1)] by (simp add: harvest_step_not_conclusive)
  have c: "knowledge (fst (harvest_step i (st, final))) ! j = e"
    using assms a
    by (auto simp: harvest_step_def mark_mine_each_keeps mark_safe_each_keeps split: option.splits)
  have d: "set final \<subseteq> set (snd (harvest_step i (st, final)))"
    by (auto simp: harvest_step_def split: option.splits)
  show ?thesis using b c d by simp
qed

lemma fold_harvest_step_keeps:
  assumes "cells e = {||}"
  shows "j < length (knowledge st) \<Longrightarrow> knowledge st ! j = e \<Longrightarrow> j \<in> set is \<or> j \<in> set final \<Longrightarrow>
     knowledge (fst (fold harvest_step is (st, final))) ! j = e \<and>
     j \<in> set (snd (fold harvest_step is (st, final)))"
proof (induction "is" arbitrary: st final)
  case Nil
  then show ?case by simp
next
  case (Cons i "is")
  obtain st' final' where step: "harvest_step i (st, final) = (st', final')"
    by (cases "harvest_step i (st, final)")
  note k = harvest_step_keeps [OF assms Cons.prems(1,2), of i final, unfolded step fst_conv snd_conv]
  have l: "j < length (knowledge st')"
    using harvest_step_grows [of st i final] step Cons.prems(1) by simp
  have m: "j \<in> set is \<or> j \<in> set final'"
    using Cons.prems(3) k by auto
  show ?case using Cons.IH [OF l k [THEN conjunct1] m] step by simp
qed

lemma add_known_safes_and_mines_keeps:
  assumes "cells e = {||}" and "e \<in> set (knowledge st)"
  shows "e \<in> set (knowledge (add_known_safes_and_mines st))"
proof -
  obtain j where j: "j < length (knowledge st)" "knowledge st ! j = e"
    using assms(2) by (auto simp: in_set_conv_nth)
  obtain st' final where f: "fold harvest_step [0 ..< length (knowledge st)] (st, []) = (st', final)"
    by (cases "fold harvest_step [0 ..< length (knowledge st)] (st, [])")
  have "j \<in> set [0 ..< length (knowledge st)] \<or> j \<in> set []" using j(1) by simp
  from fold_harvest_step_keeps [OF assms(1) j this]
  have "knowledge st' ! j = e" "j \<in> set final" using f by simp_all
  then have "e \<in> set (map (\<lambda>i. knowledge st' ! i) final)" by auto
  then show ?thesis using f by (simp add: add_known_safes_and_mines_def)
qed

lemma after_add_sentence_keeps:
  assumes "cells e = {||}" and "e \<in> set (knowledge st0)"
  shows "e \<in> set (knowledge (add_known_safes_and_mines (extend_knowledge (make_inferences st0))))"
proof -
  obtain st' infs where m: "make_inferences st0 = (st', infs)"
    by (cases "make_inferences st0")
  have "e \<in> set (knowledge st')"
    using make_inferences_keeps [OF assms] m by simp
  then have "e \<in> set (knowledge (extend_knowledge (st', infs)))"
    by (simp add: set_extend_knowledge)
  then show ?thesis
    unfolding m by (rule add_known_safes_and_mines_keeps [OF assms(1)])
qed

lemma add_sentence_keeps:
  assumes "cells e = {||}" and "e \<in> set (knowledge st)"
  shows "e \<in> set (knowledge (add_sentence st cell cnt))"
proof -
  have "strip_safes {|cell|} e \<in> set (map (strip_safes {|cell|}) (knowledge st))"
    using assms(2) by simp
  then have "e \<in> set (map (strip_safes {|cell|}) (knowledge st))"
    by (simp only: strip_safes_no_cell [OF assms(1)])
  then show ?thesis
    by (simp add: add_sentence_def mark_safe_eq split: prod.splits)
qed

lemma add_sentence_no_cell:
  assumes "\<forall>rc \<in> set (neighbours st cell). rc |\<in>| mines st \<or> rc |\<in>| safes st"
  shows "\<exists>e \<in> set (knowledge (add_sentence st cell cnt)). cells e = {||}"
proof -
  define st1 where "st1 = mark_safe (st\<lparr>moves_made := finsert cell (moves_made st)\<rparr>) cell"
  have nb: "neighbours st1 cell = neighbours st cell"
    by (simp add: neighbours_def st1_def mark_safe_eq)
  have "rc |\<in>| mines st1 \<or> rc |\<in>| safes st1" if "rc \<in> set (neighbours st cell)" for rc
    using assms that by (auto simp: st1_def mark_safe_eq)
  then have "filter (\<lambda>rc. rc |\<notin>| mines st1 \<and> rc |\<notin>| safes st1) (neighbours st1 cell) = []"
    unfolding nb by (auto simp: filter_empty_conv)
  then have "fst (scan_neighbours st1 cell cnt) = []"
    by (simp add: scan_neighbours_eq)
  then have "cells (Sentence (fset_of_list (fst (scan_neighbours st1 cell cnt)))
                (snd (scan_neighbours st1 cell cnt))) = {||}"
    by (simp add: Sentence_def)
  moreover have "Sentence (fset_of_list (fst (scan_neighbours st1 cell cnt)))
                (snd (scan_neighbours st1 cell cnt)) \<in> set (knowledge (add_sentence st cell cnt))"
    by (simp add: add_sentence_def st1_def split: prod.splits)
  ultimately show ?thesis by blast
qed

text \<open>
  Claim C3, as the code has it. \<^verbatim>\<open>add_knowledge\<close> appends the new sentence also when
  its cell set is empty, and \<^verbatim>\<open>add_known_safes_and_mines\<close> keeps every sentence whose
  cell set is empty. So a sentence with an empty cell set that is in the store before
  \<^verbatim>\<open>add_knowledge\<close> is in the store after it, and when every in-bounds neighbour of the
  observed cell is already in \<open>safes\<close> or \<open>mines\<close>, the store after \<^verbatim>\<open>add_knowledge\<close> holds
  a sentence with an empty cell set.
\<close>

theorem empty_sentences_kept:
  "(e \<in> set (knowledge st) \<and> cells e = {||} \<longrightarrow> e \<in> set (knowledge (add_knowledge st cell cnt))) \<and>
   ((\<forall>rc \<in> set (neighbours st cell). rc |\<in>| mines st \<or> rc |\<in>| safes st) \<longrightarrow>
      (\<exists>e' \<in> set (knowledge (add_knowledge st cell cnt)). cells e' = {||}))"
proof (intro conjI impI)
  assume "e \<in> set (knowledge st) \<and> cells e = {||}"
  then show "e \<in> set (knowledge (add_knowledge st cell cnt))"
    unfolding add_knowledge_def
    by (intro after_add_sentence_keeps add_sentence_keeps) simp_all
next
  assume "\<forall>rc \<in> set (neighbours st cell). rc |\<in>| mines st \<or> rc |\<in>| safes st"
  then obtain e' where e': "e' \<in> set (knowledge (add_sentence st cell cnt))" "cells e' = {||}"
    using add_sentence_no_cell [of st cell cnt] by blast
  have "e' \<in> set (knowledge (add_knowledge st cell cnt))"
    unfolding add_knowledge_def by (rule after_add_sentence_keeps [OF e'(2) e'(1)])
  then show "\<exists>e' \<in> set (knowledge (add_knowledge st cell cnt)). cells e' = {||}"
    using e'(2) by blast
qed

theorem empty_sentences_kept_witness:
  "Sentence {||} 0 \<in> set (knowledge observed_1x1) \<and> cells (Sentence {||} 0) = {||} \<and>
   Sentence {||} 0 \<in> set (knowledge (add_knowledge observed_1x1 (0, 0) 0)) \<and>
   neighbours (MinesweeperAI 1 1) (0, 0) = [] \<and>
   (\<exists>e' \<in> set (knowledge (add_knowledge (MinesweeperAI 1 1) (0, 0) 0)). cells e' = {||})"
proof -
  have a: "Sentence {||} 0 \<in> set (knowledge observed_1x1)" by code_simp
  have b: "cells (Sentence {||} 0) = {||}" by code_simp
  have n: "neighbours (MinesweeperAI 1 1) (0, 0) = []" by code_simp
  have c: "\<forall>rc \<in> set (neighbours (MinesweeperAI 1 1) (0, 0)).
       rc |\<in>| mines (MinesweeperAI 1 1) \<or> rc |\<in>| safes (MinesweeperAI 1 1)"
    by (simp only: n list.set ball_empty)
  have r1: "Sentence {||} 0 \<in> set (knowledge (add_knowledge observed_1x1 (0, 0) 0))"
    using empty_sentences_kept [of "Sentence {||} 0" observed_1x1 "(0, 0)" 0,
        THEN conjunct1, THEN mp, OF conjI [OF a b]] .
  have r2: "\<exists>e' \<in> set (knowledge (add_knowledge (MinesweeperAI 1 1) (0, 0) 0)). cells e' = {||}"
    using empty_sentences_kept [of "Sentence {||} 0" "MinesweeperAI 1 1" "(0, 0)" 0,
        THEN conjunct2, THEN mp, OF c] .
  show ?thesis using a b r1 n r2 by (intro conjI)
qed

text \<open>
  Claim C3, as stated, fails. On a board with one cell, after the cell has been observed
  with count 0 the store holds one sentence, and its cell set is empty.
\<close>

theorem empty_sentence_in_store:
  "knowledge observed_1x1 = [Sentence {||} 0] \<and> cells (Sentence {||} 0) = {||}"
  by code_simp

section \<open>Marked cells in stored sentences\<close>

text \<open>
  Claim C2: after \<^verbatim>\<open>add_knowledge\<close> no cell of a stored sentence is in \<open>safes\<close> or in
  \<open>mines\<close>. The code does not keep it. On the board of 3 rows and 3 columns with the
  mines \<open>(0,0)\<close> and \<open>(2,0)\<close>, the cells \<open>(0,1)\<close>, \<open>(1,0)\<close>, \<open>(1,1)\<close> are observed with the
  counts of the board. In the third call the first iteration of the inference loop puts
  \<open>({(2,0),(2,1),(2,2)}, 1)\<close> into \<^verbatim>\<open>inferences\<close>, the second iteration marks \<open>(2,2)\<close>
  safe, which strips the cell from the sentences of \<^verbatim>\<open>self.knowledge\<close> only; the
  inference enters the store with the safe cell \<open>(2,2)\<close> in it.
\<close>

theorem safe_cell_left_in_store:
  "permitted_all board_3x3 (MinesweeperAI 3 3) calls_3x3 \<and>
   snd (before_iteration
          (add_sentence (fold exec [Observe (0, 1) 1, Observe (1, 0) 2] (MinesweeperAI 3 3)) (1, 1) 2) 1)
     = [Sentence {|(2, 0), (2, 1), (2, 2)|} 1] \<and>
   (2, 2) |\<notin>| safes (fst (before_iteration
          (add_sentence (fold exec [Observe (0, 1) 1, Observe (1, 0) 2] (MinesweeperAI 3 3)) (1, 1) 2) 1)) \<and>
   (2, 2) |\<in>| safes (fst (before_iteration
          (add_sentence (fold exec [Observe (0, 1) 1, Observe (1, 0) 2] (MinesweeperAI 3 3)) (1, 1) 2) 2)) \<and>
   knowledge observed_3x3 = [Sentence {|(2, 0), (2, 1)|} 1, Sentence {|(2, 0), (2, 1), (2, 2)|} 1] \<and>
   (2, 2) |\<in>| safes observed_3x3 \<and>
   (2, 2) |\<in>| cells (knowledge observed_3x3 ! 1)"
  by code_simp

end
